theory Spec2Isabelle
  imports Main
begin

section \<open>Values, exceptions and the outside world\<close>

text \<open>
  The client of \<^verbatim>\<open>ryobiapi.py\<close> handles whatever \<^verbatim>\<open>resp.json()\<close> returns: a Python
  value built from \<^verbatim>\<open>None\<close>, booleans, numbers, strings, lists and dicts. A dict is an
  association list in insertion order. Numbers are integers; a JSON number with a fraction
  is outside the model.
\<close>

datatype json =
    JNull
  | JBool bool
  | JNum int
  | JStr string
  | JArr "json list"
  | JObj "(string \<times> json) list"

text \<open>The Python exceptions that the modelled code can raise or let through.\<close>

datatype error =
    KeyError string
  | TypeError
  | AttributeError
  | JSONDecodeError
  | RuntimeError
  | WebSocketException
  | WebSocketConnectionClosedException
  | OtherError

text \<open>
  \<^verbatim>\<open>except websocket.WebSocketException\<close> catches the class and its subclasses;
  \<^verbatim>\<open>WebSocketConnectionClosedException\<close> is one of them.
\<close>

fun is_websocket_exception :: "error \<Rightarrow> bool" where
  "is_websocket_exception WebSocketException = True"
| "is_websocket_exception WebSocketConnectionClosedException = True"
| "is_websocket_exception _ = False"

text \<open>Python truthiness, as tested by \<^verbatim>\<open>if resp:\<close> and \<^verbatim>\<open>if not self.api_key:\<close>.\<close>

fun truthy :: "json \<Rightarrow> bool" where
  "truthy JNull = False"
| "truthy (JBool b) = b"
| "truthy (JNum n) = (n \<noteq> 0)"
| "truthy (JStr s) = (s \<noteq> [])"
| "truthy (JArr xs) = (xs \<noteq> [])"
| "truthy (JObj kvs) = (kvs \<noteq> [])"

text \<open>\<^verbatim>\<open>v[k]\<close> for a string key \<^verbatim>\<open>k\<close>: only a dict can be subscripted by a string.\<close>

fun py_getitem :: "json \<Rightarrow> string \<Rightarrow> error + json" where
  "py_getitem (JObj kvs) k = (case map_of kvs k of None \<Rightarrow> Inl (KeyError k) | Some v \<Rightarrow> Inr v)"
| "py_getitem _ k = Inl TypeError"

text \<open>\<^verbatim>\<open>k in s\<close> on two strings is the substring test.\<close>

fun str_contains :: "string \<Rightarrow> string \<Rightarrow> bool" where
  "str_contains k [] = (k = [])"
| "str_contains k (c # cs) = (take (length k) (c # cs) = k \<or> str_contains k cs)"

text \<open>
  \<^verbatim>\<open>k in v\<close> for a string \<^verbatim>\<open>k\<close>: key membership in a dict, element membership in a list,
  substring in a string, and a \<^verbatim>\<open>TypeError\<close> on a value that is not a container.
\<close>

fun py_contains :: "string \<Rightarrow> json \<Rightarrow> error + bool" where
  "py_contains k (JObj kvs) = Inr (k \<in> set (map fst kvs))"
| "py_contains k (JArr xs) = Inr (JStr k \<in> set xs)"
| "py_contains k (JStr s) = Inr (str_contains k s)"
| "py_contains k _ = Inl TypeError"

text \<open>
  \<^verbatim>\<open>for result in v\<close>: the elements of a list, the keys of a dict, the characters of a
  string; anything else is not iterable.
\<close>

fun py_iter :: "json \<Rightarrow> error + json list" where
  "py_iter (JArr xs) = Inr xs"
| "py_iter (JObj kvs) = Inr (map (\<lambda>kv. JStr (fst kv)) kvs)"
| "py_iter (JStr s) = Inr (map (\<lambda>c. JStr [c]) s)"
| "py_iter _ = Inl TypeError"

text \<open>
  What one attempt of \<^verbatim>\<open>client.send(request)\<close> brings back: a response with its
  status code and its body as \<^verbatim>\<open>resp.json()\<close> reads it (\<open>None\<close> when the body is not
  JSON), or an \<^verbatim>\<open>httpx.RequestError\<close> (a timeout, a refused connection).
\<close>

datatype http_outcome = Resp int "json option" | RequestError

text \<open>The outcome of a call into a collaborator: it returns, or it raises.\<close>

datatype call_outcome = Returns | Raises error

text \<open>
  \<^verbatim>\<open>self.wst.start()\<close> followed by \<^verbatim>\<open>self.wst.is_alive()\<close>: the start raises, or the
  thread has started and is alive or not when asked.
\<close>

datatype thread_outcome = StartRaises error | Started bool

text \<open>
  The callbacks that the socket's read loop invokes on the controller. A message carries
  its payload as \<^verbatim>\<open>json.loads\<close> reads it, \<open>None\<close> when the payload is not JSON.
\<close>

datatype callback = OnOpen | OnClose | OnError | OnPong | OnMessage "json option"

text \<open>What the program does to the outside world, in the order it does it.\<close>

datatype action =
    HttpRequest string string
  | WsCreate
  | AuthFrame
  | SubFrame
  | ThreadStart
  | Sleep nat
  | Callback callback
  | WsSend json
  | WsClose

text \<open>
  The outside world as the program meets it. Each field but the last is the stream of
  outcomes still to come for one kind of interaction, the next one at index 0:
  HTTP attempts, \<^verbatim>\<open>WebSocketApp(...)\<close> constructions, \<^verbatim>\<open>authenticate()\<close> and
  \<^verbatim>\<open>subscribe()\<close> calls, thread starts, the callbacks that the background thread runs
  while the caller is suspended, and \<^verbatim>\<open>ws.send\<close> calls. \<open>trace\<close> is the log of the
  actions performed so far, oldest first.
\<close>

record world =
  http :: "nat \<Rightarrow> http_outcome"
  ws_new :: "nat \<Rightarrow> call_outcome"
  auth :: "nat \<Rightarrow> call_outcome"
  sub :: "nat \<Rightarrow> call_outcome"
  thread :: "nat \<Rightarrow> thread_outcome"
  inbound :: "nat \<Rightarrow> callback list"
  send :: "nat \<Rightarrow> call_outcome"
  trace :: "action list"

definition advance :: "(nat \<Rightarrow> 'a) \<Rightarrow> nat \<Rightarrow> 'a" where
  "advance f = (\<lambda>i. f (Suc i))"

definition log :: "action \<Rightarrow> world \<Rightarrow> world" where
  "log a w = w\<lparr>trace := trace w @ [a]\<rparr>"

section \<open>Constants of \<^verbatim>\<open>ryobiapi.py\<close>\<close>

datatype sock = SOCK_CONNECTED | SOCK_CLOSE | SOCK_ERROR

definition RYOBI_URL :: string where
  "RYOBI_URL = ''tti.tiwiconnect.com''"

definition HTTP_URL :: string where
  "HTTP_URL = ''https://'' @ RYOBI_URL"

definition HTTP_ENDPOINT :: string where
  "HTTP_ENDPOINT = HTTP_URL @ ''/api''"

definition N_RETRY :: nat where
  "N_RETRY = 6"

section \<open>The HTTP client: \<^verbatim>\<open>RyobiApi.send_http\<close>\<close>

text \<open>The two dicts that \<^verbatim>\<open>send_http\<close> returns in place of a response body.\<close>

definition unauthorized_result :: json where
  "unauthorized_result = JObj
     [(''msg'', JStr ''error''),
      (''details'', JStr ''Invalid login credentials HTTP 401 Unothorized. Skipped retry'')]"

definition retries_exhausted_result :: json where
  "retries_exhausted_result = JObj
     [(''msg'', JStr ''error''),
      (''details'', JStr ''Failed after 6 retry'')]"

text \<open>
  The body of \<^verbatim>\<open>for attempt in range(N_RETRY)\<close>, by recursion on the attempts left. A 200
  returns the parsed body (or lets the parse error through), a 401 returns at once, any
  other status and any \<^verbatim>\<open>httpx.RequestError\<close> go to the next attempt; after the last
  attempt the loop falls through to the final \<^verbatim>\<open>return\<close>.
\<close>

fun send_http_loop :: "nat \<Rightarrow> string \<Rightarrow> string \<Rightarrow> world \<Rightarrow> (error + json) \<times> world" where
  "send_http_loop 0 method url w = (Inr retries_exhausted_result, w)"
| "send_http_loop (Suc n) method url w =
     (let w' = log (HttpRequest method url) (w\<lparr>http := advance (http w)\<rparr>) in
      case http w 0 of
        Resp status body \<Rightarrow>
          if status = 200 then
            (case body of None \<Rightarrow> (Inl JSONDecodeError, w') | Some j \<Rightarrow> (Inr j, w'))
          else if status = 401 then (Inr unauthorized_result, w')
          else send_http_loop n method url w'
      | RequestError \<Rightarrow> send_http_loop n method url w')"

definition send_http :: "string \<Rightarrow> string \<Rightarrow> world \<Rightarrow> (error + json) \<times> world" where
  "send_http url method w = send_http_loop N_RETRY method url w"

section \<open>The account client: \<^verbatim>\<open>RyobiApi\<close>\<close>

text \<open>One entry of \<^verbatim>\<open>self.devices\<close>: the dict that \<^verbatim>\<open>get_devices\<close> builds per device.\<close>

record device =
  dev_username :: string
  dev_password :: string
  dev_api_key :: json
  dev_u_id :: json
  dev_type_ids :: json
  dev_d_id :: json
  dev_name :: json
  dev_version :: json
  dev_description :: json
  dev_last_seen :: json

text \<open>
  The fields of a \<^verbatim>\<open>RyobiApi\<close> object. \<^verbatim>\<open>None\<close> is \<open>JNull\<close>. \<^verbatim>\<open>RyobiWssCtrl\<close> extends the
  class, and its record extends this one.
\<close>

record ryobi_api =
  username :: string
  password :: string
  api_key :: json
  user_id :: json
  devices :: "device list"

text \<open>\<^verbatim>\<open>RyobiApi.__init__(username, password)\<close>.\<close>

definition init_api :: "string \<Rightarrow> string \<Rightarrow> ryobi_api" where
  "init_api usr pwd =
     \<lparr>username = usr, password = pwd, api_key = JNull, user_id = JNull, devices = []\<rparr>"

definition login_url :: string where
  "login_url = HTTP_ENDPOINT @ ''/login''"

definition devices_url :: string where
  "devices_url = HTTP_ENDPOINT @ ''/devices''"

text \<open>
  \<^verbatim>\<open>login\<close>. The result pairs what the call returns or raises with the object and the
  world as the call leaves them: an exception does not undo an assignment made before it.
  The membership test reads the key \<^verbatim>\<open>"apikey"\<close> and the assignment reads \<^verbatim>\<open>"apiKey"\<close>,
  as the source does.
\<close>

definition login :: "world \<Rightarrow> 'a ryobi_api_scheme \<Rightarrow> (error + bool) \<times> 'a ryobi_api_scheme \<times> world" where
  "login w s =
     (case send_http login_url ''POST'' w of
        (Inl e, w1) \<Rightarrow> (Inl e, s, w1)
      | (Inr resp, w1) \<Rightarrow>
          (case py_getitem resp ''result'' of
             Inl e \<Rightarrow> (Inl e, s, w1)
           | Inr result \<Rightarrow>
               (case py_contains ''_id'' result of
                  Inl e \<Rightarrow> (Inl e, s, w1)
                | Inr False \<Rightarrow> (Inr False, s, w1)
                | Inr True \<Rightarrow>
                    (case py_getitem result ''_id'' of
                       Inl e \<Rightarrow> (Inl e, s, w1)
                     | Inr uid \<Rightarrow>
                         (let s1 = s\<lparr>user_id := uid\<rparr> in
                          case py_getitem result ''auth'' of
                            Inl e \<Rightarrow> (Inl e, s1, w1)
                          | Inr auth_obj \<Rightarrow>
                              (case py_contains ''apikey'' auth_obj of
                                 Inl e \<Rightarrow> (Inl e, s1, w1)
                               | Inr False \<Rightarrow> (Inr False, s1, w1)
                               | Inr True \<Rightarrow>
                                   (case py_getitem auth_obj ''apiKey'' of
                                      Inl e \<Rightarrow> (Inl e, s1, w1)
                                    | Inr key \<Rightarrow> (Inr True, s1\<lparr>api_key := key\<rparr>, w1))))))))"

text \<open>
  The body of the loop of \<^verbatim>\<open>get_devices\<close> for one item of the result: the subscripts in
  the order of the source, the first failing one raising.
\<close>

definition make_device :: "'a ryobi_api_scheme \<Rightarrow> json \<Rightarrow> error + device" where
  "make_device s result =
     (case py_getitem result ''deviceTypeIds'' of Inl e \<Rightarrow> Inl e | Inr type_ids \<Rightarrow>
     (case py_getitem result ''varName'' of Inl e \<Rightarrow> Inl e | Inr d_id \<Rightarrow>
     (case py_getitem result ''metaData'' of Inl e \<Rightarrow> Inl e | Inr meta \<Rightarrow>
     (case py_getitem meta ''name'' of Inl e \<Rightarrow> Inl e | Inr name \<Rightarrow>
     (case py_getitem meta ''version'' of Inl e \<Rightarrow> Inl e | Inr version \<Rightarrow>
     (case py_getitem meta ''description'' of Inl e \<Rightarrow> Inl e | Inr description \<Rightarrow>
     (case py_getitem meta ''sys'' of Inl e \<Rightarrow> Inl e | Inr sys \<Rightarrow>
     (case py_getitem sys ''lastSeen'' of Inl e \<Rightarrow> Inl e | Inr last_seen \<Rightarrow>
        Inr \<lparr>dev_username = username s, dev_password = password s,
             dev_api_key = api_key s, dev_u_id = user_id s,
             dev_type_ids = type_ids, dev_d_id = d_id, dev_name = name,
             dev_version = version, dev_description = description,
             dev_last_seen = last_seen\<rparr>))))))))"

text \<open>
  \<^verbatim>\<open>for result in resp["result"]: ... self.devices.append(device)\<close>. An item that raises
  leaves the devices appended before it in the list.
\<close>

fun append_devices :: "json list \<Rightarrow> 'a ryobi_api_scheme \<Rightarrow> (error + unit) \<times> 'a ryobi_api_scheme" where
  "append_devices [] s = (Inr (), s)"
| "append_devices (result # rest) s =
     (case make_device s result of
        Inl e \<Rightarrow> (Inl e, s)
      | Inr d \<Rightarrow> append_devices rest (s\<lparr>devices := devices s @ [d]\<rparr>))"

text \<open>
  \<^verbatim>\<open>get_devices\<close>. A truthy response is iterated and \<^verbatim>\<open>self.devices\<close> itself is returned;
  a falsy one returns a new empty list.
\<close>

definition get_devices :: "world \<Rightarrow> 'a ryobi_api_scheme \<Rightarrow> (error + device list) \<times> 'a ryobi_api_scheme \<times> world" where
  "get_devices w s =
     (case send_http devices_url ''GET'' w of
        (Inl e, w1) \<Rightarrow> (Inl e, s, w1)
      | (Inr resp, w1) \<Rightarrow>
          if truthy resp then
            (case py_getitem resp ''result'' of
               Inl e \<Rightarrow> (Inl e, s, w1)
             | Inr results \<Rightarrow>
                 (case py_iter results of
                    Inl e \<Rightarrow> (Inl e, s, w1)
                  | Inr items \<Rightarrow>
                      (case append_devices items s of
                         (Inl e, s') \<Rightarrow> (Inl e, s', w1)
                       | (Inr u, s') \<Rightarrow> (Inr (devices s'), s', w1))))
          else (Inr [], s, w1))"

section \<open>The session controller: \<^verbatim>\<open>RyobiWssCtrl\<close>\<close>

text \<open>
  The fields that \<^verbatim>\<open>RyobiWssCtrl.__init__\<close> adds. \<open>ws\<close> and \<open>wst\<close> hold the socket and
  the thread object, \<open>None\<close> until one is created; an object is named by the length of
  the trace at its creation, which no later object shares.
\<close>

record ryobi_wss_ctrl = ryobi_api +
  socket_state :: sock
  device_status :: json
  subscriber :: "json list"
  wst :: "nat option"
  ws :: "nat option"
  refresh_time :: int
  sent_counter :: int

text \<open>
  \<^verbatim>\<open>RyobiWssCtrl.__init__(username, password, api_key, u_id, d_id)\<close>: the last two
  arguments are not stored.
\<close>

definition init_wss_ctrl :: "string \<Rightarrow> string \<Rightarrow> json \<Rightarrow> json \<Rightarrow> json \<Rightarrow> ryobi_wss_ctrl" where
  "init_wss_ctrl usr pwd key u_id d_id =
     \<lparr>username = usr, password = pwd, api_key = key, user_id = JNull, devices = [],
      socket_state = SOCK_CLOSE, device_status = JNull, subscriber = [],
      wst = None, ws = None, refresh_time = 60, sent_counter = 0\<rparr>"

subsection \<open>Socket callbacks\<close>

definition on_error :: "'a ryobi_wss_ctrl_scheme \<Rightarrow> 'a ryobi_wss_ctrl_scheme" where
  "on_error s = s\<lparr>socket_state := SOCK_ERROR\<rparr>"

definition on_close :: "'a ryobi_wss_ctrl_scheme \<Rightarrow> 'a ryobi_wss_ctrl_scheme" where
  "on_close s = s\<lparr>socket_state := SOCK_CLOSE\<rparr>"

definition on_open :: "'a ryobi_wss_ctrl_scheme \<Rightarrow> 'a ryobi_wss_ctrl_scheme" where
  "on_open s = s\<lparr>socket_state := SOCK_CONNECTED\<rparr>"

text \<open>
  \<^verbatim>\<open>on_pong(self, message)\<close> takes one argument besides \<^verbatim>\<open>self\<close> and only logs. Called
  with any other number of arguments, the call raises \<^verbatim>\<open>TypeError\<close> before the body
  runs.
\<close>

definition on_pong :: "nat \<Rightarrow> 'a ryobi_wss_ctrl_scheme \<Rightarrow> (error + unit) \<times> 'a ryobi_wss_ctrl_scheme" where
  "on_pong n_args s = (if n_args = 1 then (Inr (), s) else (Inl TypeError, s))"

text \<open>
  \<^verbatim>\<open>on_message\<close> resets the counter and then parses the payload with \<^verbatim>\<open>json.loads\<close>,
  which raises on a payload that is not JSON: the reset stands either way.
\<close>

definition on_message :: "json option \<Rightarrow> 'a ryobi_wss_ctrl_scheme \<Rightarrow> (error + unit) \<times> 'a ryobi_wss_ctrl_scheme" where
  "on_message message s =
     (let s1 = s\<lparr>sent_counter := 0\<rparr> in
      case message of
        None \<Rightarrow> (Inl JSONDecodeError, s1)
      | Some wss_data \<Rightarrow> (Inr (), s1))"

text \<open>
  The socket library runs each callback inside a handler: when the callback raises, the
  library calls \<^verbatim>\<open>on_error\<close> with the exception and goes on.
\<close>

definition guarded :: "(error + unit) \<times> 'a ryobi_wss_ctrl_scheme \<Rightarrow> 'a ryobi_wss_ctrl_scheme" where
  "guarded r = (case r of (Inl e, s) \<Rightarrow> on_error s | (Inr u, s) \<Rightarrow> s)"

text \<open>
  One callback as the library invokes it. It passes the socket object and the data to
  \<^verbatim>\<open>on_pong\<close>, two arguments where the method takes one.
\<close>

fun run_callback :: "callback \<Rightarrow> 'a ryobi_wss_ctrl_scheme \<Rightarrow> 'a ryobi_wss_ctrl_scheme" where
  "run_callback OnOpen s = on_open s"
| "run_callback OnClose s = on_close s"
| "run_callback OnError s = on_error s"
| "run_callback OnPong s = guarded (on_pong 2 s)"
| "run_callback (OnMessage m) s = guarded (on_message m s)"

text \<open>
  The background thread runs \<^verbatim>\<open>ws.run_forever\<close> and calls the callbacks from there. The
  model lets it run where the caller gives it time: right after \<^verbatim>\<open>wst.start()\<close> and
  during each \<^verbatim>\<open>asyncio.sleep\<close>. It then runs the next batch of callbacks of the world.
\<close>

fun deliver :: "callback list \<Rightarrow> world \<Rightarrow> 'a ryobi_wss_ctrl_scheme \<Rightarrow> 'a ryobi_wss_ctrl_scheme \<times> world" where
  "deliver [] w s = (s, w)"
| "deliver (cb # cbs) w s = deliver cbs (log (Callback cb) w) (run_callback cb s)"

definition background :: "world \<Rightarrow> 'a ryobi_wss_ctrl_scheme \<Rightarrow> 'a ryobi_wss_ctrl_scheme \<times> world" where
  "background w s = deliver (inbound w 0) (w\<lparr>inbound := advance (inbound w)\<rparr>) s"

subsection \<open>Opening the connection\<close>

definition check_credentials :: "world \<Rightarrow> 'a ryobi_wss_ctrl_scheme \<Rightarrow> (error + bool) \<times> 'a ryobi_wss_ctrl_scheme \<times> world" where
  "check_credentials w s =
     (if \<not> truthy (api_key s) then
        (case login w s of
           (Inl e, s1, w1) \<Rightarrow> (Inl e, s1, w1)
         | (Inr ok, s1, w1) \<Rightarrow> if ok then (Inr True, s1, w1) else (Inr False, s1, w1))
      else (Inr True, s, w))"

text \<open>
  Modelled from the spec: \<^verbatim>\<open>authenticate()\<close> is called by \<^verbatim>\<open>open_wss_thread\<close> and defined
  in no file under \<^verbatim>\<open>src/\<close>. The spec says that the connection "sends an authentication
  frame and a subscription frame" before the thread starts. The call sends one
  authentication frame and returns, or raises without a frame, as the world decides.
\<close>

definition authenticate :: "world \<Rightarrow> call_outcome \<times> world" where
  "authenticate w =
     (case auth w 0 of
        Returns \<Rightarrow> (Returns, log AuthFrame (w\<lparr>auth := advance (auth w)\<rparr>))
      | Raises e \<Rightarrow> (Raises e, w\<lparr>auth := advance (auth w)\<rparr>))"

text \<open>
  Modelled from the spec: \<^verbatim>\<open>subscribe()\<close> is called by \<^verbatim>\<open>open_wss_thread\<close> and defined in
  no file under \<^verbatim>\<open>src/\<close>. By the same sentence of the spec it sends one subscription
  frame and returns, or raises without a frame, as the world decides.
\<close>

definition subscribe :: "world \<Rightarrow> call_outcome \<times> world" where
  "subscribe w =
     (case sub w 0 of
        Returns \<Rightarrow> (Returns, log SubFrame (w\<lparr>sub := advance (sub w)\<rparr>))
      | Raises e \<Rightarrow> (Raises e, w\<lparr>sub := advance (sub w)\<rparr>))"

text \<open>
  The \<^verbatim>\<open>except websocket.WebSocketException\<close> clause of \<^verbatim>\<open>open_wss_thread\<close>: it handles
  that class only, and any other exception leaves the function.
\<close>

definition setup_failed :: "error \<Rightarrow> 'a ryobi_wss_ctrl_scheme \<Rightarrow> world \<Rightarrow> (error + bool) \<times> 'a ryobi_wss_ctrl_scheme \<times> world" where
  "setup_failed e s w =
     (if is_websocket_exception e then (Inr False, s\<lparr>socket_state := SOCK_ERROR\<rparr>, w)
      else (Inl e, s, w))"

definition open_wss_thread :: "world \<Rightarrow> 'a ryobi_wss_ctrl_scheme \<Rightarrow> (error + bool) \<times> 'a ryobi_wss_ctrl_scheme \<times> world" where
  "open_wss_thread w s =
     (case check_credentials w s of
        (Inl e, s1, w1) \<Rightarrow> (Inl e, s1, w1)
      | (Inr False, s1, w1) \<Rightarrow> (Inr False, s1, w1)
      | (Inr True, s1, w1) \<Rightarrow>
          (let w2 = w1\<lparr>ws_new := advance (ws_new w1)\<rparr> in
           case ws_new w1 0 of
             Raises e \<Rightarrow> setup_failed e s1 w2
           | Returns \<Rightarrow>
               (let s2 = s1\<lparr>ws := Some (length (trace w2))\<rparr>; w3 = log WsCreate w2 in
                case authenticate w3 of
                  (Raises e, w4) \<Rightarrow> setup_failed e s2 w4
                | (Returns, w4) \<Rightarrow>
                    (case subscribe w4 of
                       (Raises e, w5) \<Rightarrow> setup_failed e s2 w5
                     | (Returns, w5) \<Rightarrow>
                         (let s3 = s2\<lparr>wst := Some (length (trace w5))\<rparr>;
                              w6 = w5\<lparr>thread := advance (thread w5)\<rparr> in
                          case thread w5 0 of
                            StartRaises e \<Rightarrow> setup_failed e s3 w6
                          | Started alive \<Rightarrow>
                              (case background (log ThreadStart w6) s3 of
                                 (s4, w7) \<Rightarrow> (Inr alive, s4, w7)))))))"

text \<open>
  \<^verbatim>\<open>for i in range(15)\<close> of \<^verbatim>\<open>connect_wss\<close>, by recursion on the iterations left; the
  sleep of 0.5 seconds is logged in milliseconds.
\<close>

fun await_connection :: "nat \<Rightarrow> world \<Rightarrow> 'a ryobi_wss_ctrl_scheme \<Rightarrow> bool \<times> 'a ryobi_wss_ctrl_scheme \<times> world" where
  "await_connection 0 w s = (False, s, w)"
| "await_connection (Suc n) w s =
     (if socket_state s = SOCK_CONNECTED then (True, s, w)
      else (case background (log (Sleep 500) w) s of
              (s1, w1) \<Rightarrow> await_connection n w1 s1))"

definition connect_wss :: "world \<Rightarrow> 'a ryobi_wss_ctrl_scheme \<Rightarrow> (error + bool) \<times> 'a ryobi_wss_ctrl_scheme \<times> world" where
  "connect_wss w s =
     (if socket_state s = SOCK_CONNECTED then (Inr True, s, w)
      else
        (case open_wss_thread w s of
           (Inl e, s1, w1) \<Rightarrow> (Inl e, s1, w1)
         | (Inr False, s1, w1) \<Rightarrow> (Inr False, s1, w1)
         | (Inr True, s1, w1) \<Rightarrow>
             (case await_connection 15 w1 s1 of
                (ok, s2, w2) \<Rightarrow> (Inr ok, s2, w2))))"

subsection \<open>Publishing\<close>

text \<open>
  \<^verbatim>\<open>for attempt in range(N_RETRY)\<close> of \<^verbatim>\<open>publish_wss\<close>. A send on a connected socket
  returns true, or goes to the next attempt when the socket turns out closed; any other
  exception of the send leaves the function. When not connected, the attempt is spent on
  \<^verbatim>\<open>connect_wss\<close>, whose result is not looked at. \<^verbatim>\<open>self.ws\<close> being \<^verbatim>\<open>None\<close> makes the
  method call raise \<^verbatim>\<open>AttributeError\<close>. The message is a JSON value, for which
  \<^verbatim>\<open>json.dumps\<close> succeeds.
\<close>

fun publish_loop :: "nat \<Rightarrow> json \<Rightarrow> world \<Rightarrow> 'a ryobi_wss_ctrl_scheme \<Rightarrow> (error + bool) \<times> 'a ryobi_wss_ctrl_scheme \<times> world" where
  "publish_loop 0 msg w s = (Inr False, s, w)"
| "publish_loop (Suc n) msg w s =
     (if socket_state s = SOCK_CONNECTED then
        (case ws s of
           None \<Rightarrow> (Inl AttributeError, s, w)
         | Some h \<Rightarrow>
             (let w1 = w\<lparr>send := advance (send w)\<rparr> in
              case send w 0 of
                Returns \<Rightarrow> (Inr True, s\<lparr>sent_counter := sent_counter s + 1\<rparr>, log (WsSend msg) w1)
              | Raises e \<Rightarrow>
                  if e = WebSocketConnectionClosedException
                  then publish_loop n msg w1 (s\<lparr>socket_state := SOCK_CLOSE\<rparr>)
                  else (Inl e, s, w1)))
      else
        (case connect_wss w s of
           (Inl e, s1, w1) \<Rightarrow> (Inl e, s1, w1)
         | (Inr ok, s1, w1) \<Rightarrow> publish_loop n msg w1 s1))"

definition publish_wss :: "json \<Rightarrow> world \<Rightarrow> 'a ryobi_wss_ctrl_scheme \<Rightarrow> (error + bool) \<times> 'a ryobi_wss_ctrl_scheme \<times> world" where
  "publish_wss msg w s =
     (if sent_counter s \<ge> 5 then
        (let s1 = s\<lparr>sent_counter := 0\<rparr> in
         case ws s1 of
           None \<Rightarrow> (Inl AttributeError, s1, w)
         | Some h \<Rightarrow> publish_loop N_RETRY msg (log WsClose w) (s1\<lparr>socket_state := SOCK_CLOSE\<rparr>))
      else publish_loop N_RETRY msg w s)"

section \<open>Concrete worlds and bodies\<close>

text \<open>
  A world whose server gives the same outcome to every HTTP attempt, where every call
  into the socket library returns, every thread starts and stays alive, and the
  background thread has nothing to deliver.
\<close>

definition serving :: "http_outcome \<Rightarrow> world" where
  "serving r =
     \<lparr>http = (\<lambda>i. r), ws_new = (\<lambda>i. Returns), auth = (\<lambda>i. Returns), sub = (\<lambda>i. Returns),
      thread = (\<lambda>i. Started True), inbound = (\<lambda>i. []), send = (\<lambda>i. Returns), trace = []\<rparr>"

text \<open>The login body of the spec's scenario, with a user id and an API key.\<close>

definition valid_login_body :: json where
  "valid_login_body =
     JObj [(''result'', JObj [(''_id'', JStr ''u1''), (''auth'', JObj [(''apiKey'', JStr ''k1'')])])]"

text \<open>A login body with a user id and an \<^verbatim>\<open>auth\<close> object that holds no key at all.\<close>

definition keyless_login_body :: json where
  "keyless_login_body = JObj [(''result'', JObj [(''_id'', JStr ''u1''), (''auth'', JObj [])])]"

text \<open>The device list of the spec's scenario: one garage door opener.\<close>

definition garage_item :: json where
  "garage_item =
     JObj [(''deviceTypeIds'', JArr [JStr ''gdo'']), (''varName'', JStr ''d1''),
           (''metaData'', JObj [(''name'', JStr ''Garage''), (''version'', JStr ''1.0''),
              (''description'', JStr ''GDO''), (''sys'', JObj [(''lastSeen'', JNum 100)])])]"

definition device_list_body :: json where
  "device_list_body = JObj [(''result'', JArr [garage_item])]"

text \<open>A world like \<open>serving RequestError\<close> but where every \<^verbatim>\<open>authenticate()\<close> raises.\<close>

definition failing_auth :: "error \<Rightarrow> world" where
  "failing_auth e = (serving RequestError)\<lparr>auth := (\<lambda>i. Raises e)\<rparr>"

text \<open>A controller created for a known device, with an API key.\<close>

definition keyed_ctrl :: ryobi_wss_ctrl where
  "keyed_ctrl = init_wss_ctrl ''user'' ''pass'' (JStr ''k1'') (JStr ''u1'') (JStr ''d1'')"

text \<open>
  The controller \<open>keyed_ctrl\<close> once its socket is open, and the world after \<open>k\<close> frames
  have been sent on it with nothing coming back.
\<close>

definition connected_ctrl :: ryobi_wss_ctrl where
  "connected_ctrl = keyed_ctrl\<lparr>socket_state := SOCK_CONNECTED, wst := Some 3, ws := Some 0\<rparr>"

definition sent_world :: "nat \<Rightarrow> world" where
  "sent_world k = (serving RequestError)\<lparr>trace := replicate k (WsSend JNull)\<rparr>"

text \<open>
  A world like \<open>serving RequestError\<close> but where the socket opens: every batch of the
  background thread is one \<^verbatim>\<open>on_open\<close>.
\<close>

definition opening_world :: world where
  "opening_world = (serving RequestError)\<lparr>inbound := (\<lambda>i. [OnOpen])\<rparr>"

text \<open>
  The controller and the world after a first session was opened in \<open>opening_world\<close> and
  the socket was then closed from the other side.
\<close>

definition dropped_ctrl :: ryobi_wss_ctrl where
  "dropped_ctrl = connected_ctrl\<lparr>socket_state := SOCK_CLOSE\<rparr>"

definition dropped_world :: world where
  "dropped_world = opening_world\<lparr>trace :=
     [WsCreate, AuthFrame, SubFrame, ThreadStart, Callback OnOpen, Callback OnClose]\<rparr>"

section \<open>Vocabulary of the statements\<close>

text \<open>
  An outcome that \<^verbatim>\<open>send_http\<close> answers with another attempt: a status other than 200
  and 401 (500 and 503 among them), or a network-level error such as a timeout.
\<close>

definition retryable :: "http_outcome \<Rightarrow> bool" where
  "retryable r =
     (case r of Resp status body \<Rightarrow> status \<noteq> 200 \<and> status \<noteq> 401 | RequestError \<Rightarrow> True)"

text \<open>The world after \<open>n\<close> HTTP attempts with the given method and URL, and nothing else.\<close>

definition consumed :: "nat \<Rightarrow> string \<Rightarrow> string \<Rightarrow> world \<Rightarrow> world" where
  "consumed n method url w =
     w\<lparr>http := (\<lambda>i. http w (i + n)), trace := trace w @ replicate n (HttpRequest method url)\<rparr>"

text \<open>The server lets every one of the next \<open>N_RETRY\<close> attempts fail in a retryable way.\<close>

definition gives_up :: "world \<Rightarrow> bool" where
  "gives_up w = (\<forall>i<N_RETRY. retryable (http w i))"

text \<open>
  The server answers 401 to one of the next \<open>N_RETRY\<close> attempts, the attempts before it
  failing in a retryable way.
\<close>

definition refused :: "world \<Rightarrow> bool" where
  "refused w = (\<exists>k<N_RETRY. (\<forall>i<k. retryable (http w i)) \<and> (\<exists>b. http w k = Resp 401 b))"

text \<open>The sleeps of a trace: how many, and how many milliseconds in all.\<close>

fun duration :: "action \<Rightarrow> nat" where
  "duration (Sleep ms) = ms"
| "duration _ = 0"

fun is_sleep :: "action \<Rightarrow> bool" where
  "is_sleep (Sleep ms) = True"
| "is_sleep _ = False"

definition sleeps :: "action list \<Rightarrow> nat" where
  "sleeps tr = length (filter is_sleep tr)"

definition slept_ms :: "action list \<Rightarrow> nat" where
  "slept_ms tr = sum_list (map duration tr)"

text \<open>
  The socket setup of \<^verbatim>\<open>open_wss_thread\<close> raises \<open>e\<close>: the first step of the \<^verbatim>\<open>try\<close> block
  that does not return (the constructor, \<^verbatim>\<open>authenticate()\<close>, \<^verbatim>\<open>subscribe()\<close>, the thread
  start) raises it.
\<close>

definition setup_raises :: "error \<Rightarrow> world \<Rightarrow> bool" where
  "setup_raises e w =
     (ws_new w 0 = Raises e \<or>
      (ws_new w 0 = Returns \<and>
       (auth w 0 = Raises e \<or>
        (auth w 0 = Returns \<and>
         (sub w 0 = Raises e \<or>
          (sub w 0 = Returns \<and> thread w 0 = StartRaises e))))))"

text \<open>The inbound messages of a trace: the runs of \<^verbatim>\<open>on_message\<close>.\<close>

fun is_message :: "action \<Rightarrow> bool" where
  "is_message (Callback (OnMessage m)) = True"
| "is_message _ = False"

definition messages :: "action list \<Rightarrow> nat" where
  "messages tr = length (filter is_message tr)"

text \<open>
  A step from \<open>(w, s)\<close> to \<open>(w', s')\<close> is calm when it only adds to the trace, keeps the
  counter of sent frames unless an inbound message was processed, and keeps a socket
  object once there is one.
\<close>

definition calm :: "world \<Rightarrow> 'a ryobi_wss_ctrl_scheme \<Rightarrow> world \<Rightarrow> 'a ryobi_wss_ctrl_scheme \<Rightarrow> bool" where
  "calm w s w' s' =
     ((\<exists>ext. trace w' = trace w @ ext) \<and>
      (messages (trace w') = messages (trace w) \<longrightarrow> sent_counter s' = sent_counter s) \<and>
      (ws s \<noteq> None \<longrightarrow> ws s' \<noteq> None))"

text \<open>
  A stretch of trace is pristine when it holds no thread start and no callback. A trace is
  framed when every thread start in it comes right after an authentication frame and a
  subscription frame, in that order: each session sent both frames before its read loop
  began. It is heard when every callback in it, an inbound message included, was run
  after some thread start.
\<close>

fun is_inbound :: "action \<Rightarrow> bool" where
  "is_inbound (Callback cb) = True"
| "is_inbound _ = False"

fun is_request :: "action \<Rightarrow> bool" where
  "is_request (HttpRequest m u) = True"
| "is_request _ = False"

definition pristine :: "action list \<Rightarrow> bool" where
  "pristine tr = list_all (\<lambda>a. a \<noteq> ThreadStart \<and> \<not> is_inbound a) tr"

definition framed :: "action list \<Rightarrow> bool" where
  "framed tr =
     (\<forall>pre post. tr = pre @ ThreadStart # post \<longrightarrow> (\<exists>before. pre = before @ [AuthFrame, SubFrame]))"

definition heard :: "action list \<Rightarrow> bool" where
  "heard tr = (\<forall>pre cb post. tr = pre @ Callback cb # post \<longrightarrow> ThreadStart \<in> set pre)"

text \<open>
  The invariant of the reachable states: the trace is framed and heard, and the state is
  connected only if a thread was started.
\<close>

definition settled :: "world \<Rightarrow> 'a ryobi_wss_ctrl_scheme \<Rightarrow> bool" where
  "settled w s =
     (framed (trace w) \<and> heard (trace w) \<and>
      (socket_state s = SOCK_CONNECTED \<longrightarrow> ThreadStart \<in> set (trace w)))"

text \<open>
  The controllers and worlds that a program can reach: a controller is created by
  \<^verbatim>\<open>__init__\<close> before anything has happened, its methods are called one after the other,
  and once a thread has been started the socket library may run a callback between two
  calls.
\<close>

inductive reachable :: "world \<Rightarrow> ryobi_wss_ctrl \<Rightarrow> bool" where
  created: "trace w = [] \<Longrightarrow> reachable w (init_wss_ctrl usr pwd key u_id d_id)"
| logged_in: "reachable w s \<Longrightarrow> login w s = (r, s', w') \<Longrightarrow> reachable w' s'"
| listed: "reachable w s \<Longrightarrow> get_devices w s = (l, s', w') \<Longrightarrow> reachable w' s'"
| checked: "reachable w s \<Longrightarrow> check_credentials w s = (r, s', w') \<Longrightarrow> reachable w' s'"
| opened: "reachable w s \<Longrightarrow> open_wss_thread w s = (r, s', w') \<Longrightarrow> reachable w' s'"
| connected: "reachable w s \<Longrightarrow> connect_wss w s = (r, s', w') \<Longrightarrow> reachable w' s'"
| published: "reachable w s \<Longrightarrow> publish_wss m w s = (r, s', w') \<Longrightarrow> reachable w' s'"
| called_back: "reachable w s \<Longrightarrow> ThreadStart \<in> set (trace w) \<Longrightarrow>
     reachable (log (Callback cb) w) (run_callback cb s)"

section \<open>The HTTP client retries and gives up\<close>

lemma N_RETRY_Suc: "N_RETRY = Suc (Suc (Suc (Suc (Suc (Suc 0)))))"
  by (simp add: N_RETRY_def eval_nat_numeral)

lemma consumed_0: "consumed 0 m u w = w"
  by (simp add: consumed_def)

lemma consumed_Suc:
  "consumed n m u (log (HttpRequest m u) (w\<lparr>http := advance (http w)\<rparr>)) = consumed (Suc n) m u w"
  by (simp add: consumed_def log_def advance_def replicate_app_Cons_same)

lemma send_http_loop_exhausted:
  "\<forall>i<n. retryable (http w i) \<Longrightarrow>
   send_http_loop n m u w = (Inr retries_exhausted_result, consumed n m u w)"
proof (induction n arbitrary: w)
  case 0
  then show ?case by (simp add: consumed_0)
next
  case (Suc n)
  let ?w' = "log (HttpRequest m u) (w\<lparr>http := advance (http w)\<rparr>)"
  have r0: "retryable (http w 0)" using Suc.prems by simp
  have "\<forall>i<n. retryable (http ?w' i)"
    using Suc.prems by (simp add: log_def advance_def)
  then have ih: "send_http_loop n m u ?w' = (Inr retries_exhausted_result, consumed (Suc n) m u w)"
    using Suc.IH [of ?w'] by (simp add: consumed_Suc)
  show ?case using r0 ih
    by (cases "http w 0") (simp_all add: retryable_def Let_def)
qed

lemma send_http_loop_unauthorized:
  "k < n \<Longrightarrow> \<forall>i<k. retryable (http w i) \<Longrightarrow> http w k = Resp 401 b \<Longrightarrow>
   send_http_loop n m u w = (Inr unauthorized_result, consumed (Suc k) m u w)"
proof (induction n arbitrary: w k)
  case 0
  then show ?case by simp
next
  case (Suc n)
  let ?w' = "log (HttpRequest m u) (w\<lparr>http := advance (http w)\<rparr>)"
  show ?case
  proof (cases k)
    case 0
    then show ?thesis using Suc.prems
      by (simp add: Let_def consumed_def log_def advance_def)
  next
    case (Suc j)
    have r0: "retryable (http w 0)" using Suc.prems \<open>k = Suc j\<close> by simp
    have a: "j < n" using Suc.prems \<open>k = Suc j\<close> by simp
    have b: "\<forall>i<j. retryable (http ?w' i)"
      using Suc.prems \<open>k = Suc j\<close> by (simp add: log_def advance_def)
    have c: "http ?w' j = Resp 401 b"
      using Suc.prems \<open>k = Suc j\<close> by (simp add: log_def advance_def)
    have ih: "send_http_loop n m u ?w' = (Inr unauthorized_result, consumed (Suc k) m u w)"
      using Suc.IH [OF a b c] \<open>k = Suc j\<close> by (simp add: consumed_Suc)
    show ?thesis using r0 ih
      by (cases "http w 0") (simp_all add: retryable_def Let_def)
  qed
qed

text \<open>
  Claim C4. When each of the next \<open>N_RETRY\<close> outcomes is a status other than 200 and 401
  or a network-level error, \<^verbatim>\<open>send_http\<close> makes exactly \<open>N_RETRY = 6\<close> attempts (six
  requests are added to the trace and six outcomes are taken from the stream, nothing else
  changes) and returns the generic failure dict, which differs from the dict returned on a
  401.
\<close>

theorem send_http_exhausts_retries:
  "\<forall>i<N_RETRY. retryable (http w i) \<Longrightarrow>
   N_RETRY = 6 \<and>
   send_http url meth w = (Inr retries_exhausted_result, consumed 6 meth url w) \<and>
   retries_exhausted_result \<noteq> unauthorized_result"
  using send_http_loop_exhausted [of N_RETRY w meth url]
  by (simp add: send_http_def N_RETRY_def retries_exhausted_result_def unauthorized_result_def)

theorem send_http_exhausts_retries_witness:
  "gives_up (serving (Resp 503 None)) \<and>
   send_http login_url ''POST'' (serving (Resp 503 None)) =
     (Inr retries_exhausted_result, consumed 6 ''POST'' login_url (serving (Resp 503 None)))"
proof -
  have h: "\<forall>i<N_RETRY. retryable (http (serving (Resp 503 None)) i)"
    by (simp add: serving_def retryable_def)
  show ?thesis
    using h send_http_exhausts_retries [OF h, of login_url "''POST''"]
    by (simp add: gives_up_def)
qed

section \<open>Login\<close>

text \<open>
  Claim C1. On the body \<^verbatim>\<open>{"result":{"_id":"u1","auth":{"apiKey":"k1"}}}\<close> with status
  200, \<^verbatim>\<open>login\<close> as written stores the user id \<^verbatim>\<open>"u1"\<close>, then tests the \<^verbatim>\<open>auth\<close> object
  for the key \<^verbatim>\<open>"apikey"\<close>, which the body spells \<^verbatim>\<open>"apiKey"\<close>: it returns false after
  one request and the API key stays \<^verbatim>\<open>None\<close>.
\<close>

theorem login_valid_body_returns_false:
  "login (serving (Resp 200 (Some valid_login_body))) (init_api ''user'' ''pass'') =
     (Inr False, (init_api ''user'' ''pass'')\<lparr>user_id := JStr ''u1''\<rparr>,
      consumed 1 ''POST'' login_url (serving (Resp 200 (Some valid_login_body)))) \<and>
   api_key ((init_api ''user'' ''pass'')\<lparr>user_id := JStr ''u1''\<rparr>) = JNull"
  by (simp add: login_def send_http_def N_RETRY_Suc serving_def valid_login_body_def
      init_api_def log_def advance_def consumed_def)

lemma key_present: "map_of kvs k = Some v \<Longrightarrow> k \<in> fst ` set kvs"
  by (metis map_of_eq_None_iff option.distinct(1))

lemma key_absent: "map_of kvs k = None \<Longrightarrow> k \<notin> fst ` set kvs"
  by (simp add: map_of_eq_None_iff)

text \<open>
  Claim C2, as stated, fails: on a body with a user id whose \<^verbatim>\<open>auth\<close> object holds no
  key, \<^verbatim>\<open>login\<close> returns false, and the stored user id has changed from \<^verbatim>\<open>None\<close> to the
  id of the body.
\<close>

theorem login_keyless_body_overwrites_user_id:
  "fst (login (serving (Resp 200 (Some keyless_login_body))) (init_api ''user'' ''pass'')) = Inr False \<and>
   user_id (init_api ''user'' ''pass'') = JNull \<and>
   user_id (fst (snd (login (serving (Resp 200 (Some keyless_login_body))) (init_api ''user'' ''pass'')))) =
     JStr ''u1''"
  by (simp add: login_def send_http_def N_RETRY_Suc serving_def keyless_login_body_def
      init_api_def log_def advance_def)

text \<open>
  Claim C2, amended. Let the response body be an object whose \<^verbatim>\<open>result\<close> is an object.
  If \<^verbatim>\<open>result\<close> has no \<^verbatim>\<open>_id\<close>, \<^verbatim>\<open>login\<close> returns false and leaves the object, hence
  user id and API key, as they were. If \<^verbatim>\<open>result\<close> has an \<^verbatim>\<open>_id\<close> and its \<^verbatim>\<open>auth\<close> is
  an object with no API key under either spelling, \<^verbatim>\<open>login\<close> returns false and leaves the
  API key as it was, the user id being overwritten with the \<^verbatim>\<open>_id\<close> of the body.
\<close>

theorem login_rejects_incomplete_body:
  assumes "send_http login_url ''POST'' w = (Inr (JObj body), w1)"
    and "map_of body ''result'' = Some (JObj result)"
  shows "(map_of result ''_id'' = None \<longrightarrow> login w s = (Inr False, s, w1)) \<and>
         (\<forall>uid keys. map_of result ''_id'' = Some uid \<and> map_of result ''auth'' = Some (JObj keys) \<and>
             map_of keys ''apiKey'' = None \<and> map_of keys ''apikey'' = None \<longrightarrow>
             login w s = (Inr False, s\<lparr>user_id := uid\<rparr>, w1) \<and>
             api_key (s\<lparr>user_id := uid\<rparr>) = api_key s)"
proof (intro conjI allI impI)
  assume "map_of result ''_id'' = None"
  then show "login w s = (Inr False, s, w1)"
    using assms by (simp add: login_def key_absent)
next
  fix uid keys
  assume h: "map_of result ''_id'' = Some uid \<and> map_of result ''auth'' = Some (JObj keys) \<and>
             map_of keys ''apiKey'' = None \<and> map_of keys ''apikey'' = None"
  then have "''_id'' \<in> fst ` set result" and "''apikey'' \<notin> fst ` set keys"
    by (simp_all add: key_present key_absent)
  then show "login w s = (Inr False, s\<lparr>user_id := uid\<rparr>, w1)"
    using assms h by (simp add: login_def)
next
  fix uid keys
  show "api_key (s\<lparr>user_id := uid\<rparr>) = api_key s" by simp
qed

theorem login_rejects_incomplete_body_witness:
  "login (serving (Resp 200 (Some (JObj [(''result'', JObj [])])))) (init_api ''user'' ''pass'') =
     (Inr False, init_api ''user'' ''pass'',
      consumed 1 ''POST'' login_url (serving (Resp 200 (Some (JObj [(''result'', JObj [])]))))) \<and>
   login (serving (Resp 200 (Some keyless_login_body))) (init_api ''user'' ''pass'') =
     (Inr False, (init_api ''user'' ''pass'')\<lparr>user_id := JStr ''u1''\<rparr>,
      consumed 1 ''POST'' login_url (serving (Resp 200 (Some keyless_login_body))))"
proof -
  have sent1: "send_http login_url ''POST'' (serving (Resp 200 (Some (JObj [(''result'', JObj [])])))) =
     (Inr (JObj [(''result'', JObj [])]),
      consumed 1 ''POST'' login_url (serving (Resp 200 (Some (JObj [(''result'', JObj [])])))))"
    by (simp add: send_http_def N_RETRY_Suc serving_def log_def advance_def consumed_def)
  have res1: "map_of [(''result'', JObj [])] ''result'' = Some (JObj [])" by simp
  have sent2: "send_http login_url ''POST'' (serving (Resp 200 (Some keyless_login_body))) =
     (Inr (JObj [(''result'', JObj [(''_id'', JStr ''u1''), (''auth'', JObj [])])]),
      consumed 1 ''POST'' login_url (serving (Resp 200 (Some keyless_login_body))))"
    by (simp add: send_http_def N_RETRY_Suc serving_def log_def advance_def consumed_def
        keyless_login_body_def)
  have res2: "map_of [(''result'', JObj [(''_id'', JStr ''u1''), (''auth'', JObj [])])] ''result'' =
     Some (JObj [(''_id'', JStr ''u1''), (''auth'', JObj [])])" by simp
  show ?thesis
    using login_rejects_incomplete_body [OF sent1 res1, of "init_api ''user'' ''pass''"]
      login_rejects_incomplete_body [OF sent2 res2, of "init_api ''user'' ''pass''"]
    by simp
qed

text \<open>
  Claim C3. On a 401, \<^verbatim>\<open>send_http\<close> returns its dict for that case after the one
  request, and \<^verbatim>\<open>login\<close> then subscripts the dict with \<^verbatim>\<open>"result"\<close>, a key it does not
  have: the call raises \<^verbatim>\<open>KeyError\<close> in place of returning false.
\<close>

theorem login_unauthorized_raises:
  "send_http login_url ''POST'' (serving (Resp 401 None)) =
     (Inr unauthorized_result, consumed 1 ''POST'' login_url (serving (Resp 401 None))) \<and>
   login (serving (Resp 401 None)) (init_api ''user'' ''pass'') =
     (Inl (KeyError ''result''), init_api ''user'' ''pass'',
      consumed 1 ''POST'' login_url (serving (Resp 401 None)))"
  by (simp add: login_def send_http_def N_RETRY_Suc serving_def init_api_def log_def advance_def
      consumed_def unauthorized_result_def)

section \<open>Device enumeration\<close>

lemma get_devices_on_failure_value:
  assumes "send_http devices_url ''GET'' w = (Inr v, w1)"
    and "v = unauthorized_result \<or> v = retries_exhausted_result"
  shows "get_devices w s = (Inl (KeyError ''result''), s, w1)"
  using assms
  by (auto simp add: get_devices_def unauthorized_result_def retries_exhausted_result_def)

text \<open>
  Claim C9. When \<^verbatim>\<open>send_http\<close> meets a 401 or uses up its attempts, the value it returns
  is a dict that is not empty, hence truthy, and has no \<^verbatim>\<open>"result"\<close> key; \<^verbatim>\<open>get_devices\<close>
  on that value takes the branch of a truthy response and raises \<^verbatim>\<open>KeyError\<close> from the
  subscript, leaving the object as it was. It does not return the empty list.
\<close>

theorem get_devices_raises_on_failure_value:
  assumes "refused w \<or> gives_up w"
  shows "\<exists>kvs w1. send_http devices_url ''GET'' w = (Inr (JObj kvs), w1) \<and>
           kvs \<noteq> [] \<and> truthy (JObj kvs) \<and> map_of kvs ''result'' = None \<and>
           get_devices w s = (Inl (KeyError ''result''), s, w1)"
proof -
  have "\<exists>v w1. send_http devices_url ''GET'' w = (Inr v, w1) \<and>
          (v = unauthorized_result \<or> v = retries_exhausted_result)"
  proof (cases "refused w")
    case True
    then obtain k b where "k < N_RETRY" "\<forall>i<k. retryable (http w i)" "http w k = Resp 401 b"
      by (auto simp add: refused_def)
    then show ?thesis
      using send_http_loop_unauthorized [of k N_RETRY w b "''GET''" devices_url]
      by (simp add: send_http_def)
  next
    case False
    then have "\<forall>i<N_RETRY. retryable (http w i)" using assms by (simp add: gives_up_def)
    then show ?thesis
      using send_http_loop_exhausted [of N_RETRY w "''GET''" devices_url]
      by (simp add: send_http_def)
  qed
  then obtain v w1 where sent: "send_http devices_url ''GET'' w = (Inr v, w1)"
    and v: "v = unauthorized_result \<or> v = retries_exhausted_result"
    by blast
  have raised: "get_devices w s = (Inl (KeyError ''result''), s, w1)"
    using get_devices_on_failure_value [OF sent v] .
  from v show ?thesis
  proof
    assume "v = unauthorized_result"
    then show ?thesis using sent raised by (simp add: unauthorized_result_def)
  next
    assume "v = retries_exhausted_result"
    then show ?thesis using sent raised by (simp add: retries_exhausted_result_def)
  qed
qed

theorem get_devices_raises_on_failure_value_witness:
  "refused (serving (Resp 401 None)) \<and> gives_up (serving RequestError) \<and>
   fst (get_devices (serving (Resp 401 None)) (init_api ''user'' ''pass'')) = Inl (KeyError ''result'') \<and>
   fst (get_devices (serving RequestError) (init_api ''user'' ''pass'')) = Inl (KeyError ''result'')"
proof -
  have a: "refused (serving (Resp 401 None))"
    unfolding refused_def by (rule exI [of _ 0]) (simp add: serving_def N_RETRY_def)
  have b: "gives_up (serving RequestError)"
    by (simp add: gives_up_def serving_def retryable_def)
  show ?thesis
    using a b
      get_devices_raises_on_failure_value [of "serving (Resp 401 None)" "init_api ''user'' ''pass''"]
      get_devices_raises_on_failure_value [of "serving RequestError" "init_api ''user'' ''pass''"]
    by auto
qed

lemma make_device_devices: "make_device (s\<lparr>devices := ds\<rparr>) = make_device s"
  by (rule ext) (simp add: make_device_def split: sum.splits)

lemma append_devices_built:
  "append_devices items s = (Inr u, s') \<Longrightarrow>
   \<exists>ds. map (make_device s) items = map Inr ds \<and> s' = s\<lparr>devices := devices s @ ds\<rparr>"
proof (induction items arbitrary: s)
  case Nil
  then show ?case by simp
next
  case (Cons r rest)
  from Cons.prems obtain d where d: "make_device s r = Inr d"
    and rest: "append_devices rest (s\<lparr>devices := devices s @ [d]\<rparr>) = (Inr u, s')"
    by (auto split: sum.splits)
  from Cons.IH [OF rest] obtain ds where
    ds: "map (make_device (s\<lparr>devices := devices s @ [d]\<rparr>)) rest = map Inr ds"
    and s': "s' = s\<lparr>devices := devices s @ [d]\<rparr>\<lparr>devices := devices (s\<lparr>devices := devices s @ [d]\<rparr>) @ ds\<rparr>"
    by blast
  have "map (make_device s) (r # rest) = map Inr (d # ds)"
    using d ds by (simp add: make_device_devices)
  moreover have "s' = s\<lparr>devices := devices s @ (d # ds)\<rparr>"
    using s' by simp
  ultimately show ?case by blast
qed

lemma get_devices_success:
  assumes "send_http devices_url ''GET'' w = (Inr resp, wa)" and "truthy resp"
    and "get_devices w s = (Inr l, s', w')"
  shows "\<exists>results items ds. py_getitem resp ''result'' = Inr results \<and> py_iter results = Inr items \<and>
           map (make_device s) items = map Inr ds \<and> l = devices s @ ds \<and>
           s' = s\<lparr>devices := devices s @ ds\<rparr> \<and> w' = wa"
proof -
  from assms obtain results items u where
    r: "py_getitem resp ''result'' = Inr results" and i: "py_iter results = Inr items"
    and a: "append_devices items s = (Inr u, s')" and l: "l = devices s'" and w: "w' = wa"
    by (auto simp add: get_devices_def split: sum.splits prod.splits)
  from append_devices_built [OF a] obtain ds where
    "map (make_device s) items = map Inr ds" "s' = s\<lparr>devices := devices s @ ds\<rparr>"
    by blast
  then show ?thesis using r i l w by auto
qed

text \<open>
  Claim C10. \<^verbatim>\<open>get_devices\<close> appends to \<^verbatim>\<open>self.devices\<close> and never clears it. Of two
  calls in sequence that each get a truthy response and return normally, the second
  returns the list returned by the first followed by the descriptors built, one per item
  and in order, from the second response; that list is also the stored one.
\<close>

theorem get_devices_accumulates:
  assumes "send_http devices_url ''GET'' w = (Inr resp1, wa)" and "truthy resp1"
    and "get_devices w s = (Inr l1, s1, w1)"
    and "send_http devices_url ''GET'' w1 = (Inr resp2, wb)" and "truthy resp2"
    and "get_devices w1 s1 = (Inr l2, s2, w2)"
  shows "\<exists>results items ds. py_getitem resp2 ''result'' = Inr results \<and> py_iter results = Inr items \<and>
           map (make_device s1) items = map Inr ds \<and> l2 = l1 @ ds \<and> devices s2 = l2"
proof -
  from get_devices_success [OF assms(1,2,3)] have l1: "l1 = devices s1" by auto
  from get_devices_success [OF assms(4,5,6)] l1 show ?thesis by auto
qed

lemma get_devices_run:
  assumes "send_http devices_url ''GET'' w = (Inr resp, w1)" and "truthy resp"
    and "py_getitem resp ''result'' = Inr results" and "py_iter results = Inr items"
    and "append_devices items s = (Inr u, s')"
  shows "get_devices w s = (Inr (devices s'), s', w1)"
  using assms by (simp add: get_devices_def)

theorem get_devices_accumulates_witness:
  "\<exists>l1 s1 l2. get_devices (serving (Resp 200 (Some device_list_body))) (init_api ''user'' ''pass'') =
       (Inr l1, s1, consumed (Suc 0) ''GET'' devices_url (serving (Resp 200 (Some device_list_body)))) \<and>
     fst (get_devices (consumed (Suc 0) ''GET'' devices_url (serving (Resp 200 (Some device_list_body)))) s1) = Inr l2 \<and>
     map dev_d_id l1 = [JStr ''d1''] \<and> map dev_d_id l2 = [JStr ''d1'', JStr ''d1'']"
proof -
  let ?w = "serving (Resp 200 (Some device_list_body))"
  let ?s = "init_api ''user'' ''pass''"
  let ?w1 = "consumed (Suc 0) ''GET'' devices_url ?w"
  let ?w2 = "consumed (Suc (Suc 0)) ''GET'' devices_url ?w"
  obtain d where d: "make_device ?s garage_item = Inr d" and id: "dev_d_id d = JStr ''d1''"
    by (simp add: make_device_def garage_item_def)
  let ?s1 = "?s\<lparr>devices := devices ?s @ [d]\<rparr>"
  let ?s2 = "?s1\<lparr>devices := devices ?s1 @ [d]\<rparr>"
  have sent1: "send_http devices_url ''GET'' ?w = (Inr device_list_body, ?w1)"
    by (simp add: send_http_def N_RETRY_Suc serving_def log_def advance_def consumed_def)
  have sent2: "send_http devices_url ''GET'' ?w1 = (Inr device_list_body, ?w2)"
    by (simp add: send_http_def N_RETRY_Suc serving_def log_def advance_def consumed_def)
  have t: "truthy device_list_body" by (simp add: device_list_body_def)
  have r: "py_getitem device_list_body ''result'' = Inr (JArr [garage_item])"
    by (simp add: device_list_body_def)
  have i: "py_iter (JArr [garage_item]) = Inr [garage_item]" by simp
  have a1: "append_devices [garage_item] ?s = (Inr (), ?s1)" using d by simp
  have a2: "append_devices [garage_item] ?s1 = (Inr (), ?s2)"
    using d by (simp add: make_device_devices)
  have got1: "get_devices ?w ?s = (Inr (devices ?s1), ?s1, ?w1)"
    by (rule get_devices_run [OF sent1 t r i a1])
  have got2: "get_devices ?w1 ?s1 = (Inr (devices ?s2), ?s2, ?w2)"
    by (rule get_devices_run [OF sent2 t r i a2])
  from get_devices_accumulates [OF sent1 t got1 sent2 t got2]
  have "\<exists>ds. devices ?s2 = devices ?s1 @ ds" by auto
  then show ?thesis using got1 got2 id by (simp add: init_api_def)
qed

section \<open>Connecting\<close>

text \<open>
  Claim C5. Called while \<^verbatim>\<open>socket_state\<close> is already connected, \<^verbatim>\<open>connect_wss\<close> returns
  true at once: the controller (socket handle, thread handle, counter and state included)
  and the world (no socket opened, no thread started, nothing added to the trace) are as
  before the call.
\<close>

theorem connect_wss_when_connected:
  "socket_state s = SOCK_CONNECTED \<Longrightarrow> connect_wss w s = (Inr True, s, w)"
  by (simp add: connect_wss_def)

theorem connect_wss_when_connected_witness:
  "socket_state ((init_wss_ctrl ''user'' ''pass'' (JStr ''k1'') (JStr ''u1'') (JStr ''d1''))\<lparr>socket_state := SOCK_CONNECTED\<rparr>) = SOCK_CONNECTED \<and>
   connect_wss (serving RequestError)
     ((init_wss_ctrl ''user'' ''pass'' (JStr ''k1'') (JStr ''u1'') (JStr ''d1''))\<lparr>socket_state := SOCK_CONNECTED\<rparr>) =
     (Inr True, (init_wss_ctrl ''user'' ''pass'' (JStr ''k1'') (JStr ''u1'') (JStr ''d1''))\<lparr>socket_state := SOCK_CONNECTED\<rparr>,
      serving RequestError)"
  using connect_wss_when_connected [of "(init_wss_ctrl ''user'' ''pass'' (JStr ''k1'') (JStr ''u1'') (JStr ''d1''))\<lparr>socket_state := SOCK_CONNECTED\<rparr>" "serving RequestError"]
  by simp


section \<open>What each step does to the world\<close>

lemma sleeps_append: "sleeps (tr @ ext) = sleeps tr + sleeps ext"
  by (simp add: sleeps_def)

lemma slept_ms_append: "slept_ms (tr @ ext) = slept_ms tr + slept_ms ext"
  by (simp add: slept_ms_def)

lemma sleeps_callbacks: "sleeps (map Callback cbs) = 0"
  by (induction cbs) (simp_all add: sleeps_def)

lemma slept_ms_callbacks: "slept_ms (map Callback cbs) = 0"
  by (induction cbs) (simp_all add: slept_ms_def)

lemma sleeps_requests: "sleeps (replicate k (HttpRequest m u)) = 0"
  by (induction k) (simp_all add: sleeps_def)

lemma slept_ms_requests: "slept_ms (replicate k (HttpRequest m u)) = 0"
  by (induction k) (simp_all add: slept_ms_def)

lemma send_http_loop_consumes:
  "send_http_loop n m u w = (r, w') \<Longrightarrow> \<exists>k\<le>n. w' = consumed k m u w"
proof (induction n arbitrary: w)
  case 0
  then show ?case by (simp add: consumed_0)
next
  case (Suc n)
  let ?w1 = "log (HttpRequest m u) (w\<lparr>http := advance (http w)\<rparr>)"
  have one: "?w1 = consumed (Suc 0) m u w"
    using consumed_Suc [of 0 m u w] by (simp add: consumed_0)
  consider (stop) "w' = ?w1" | (go) "send_http_loop n m u ?w1 = (r, w')"
    using Suc.prems by (auto simp add: Let_def split: http_outcome.splits option.splits if_splits)
  then show ?case
  proof cases
    case stop
    then show ?thesis using one by (intro exI [of _ "Suc 0"]) simp
  next
    case go
    from Suc.IH [OF go] obtain k where "k \<le> n" "w' = consumed k m u ?w1" by blast
    then show ?thesis using consumed_Suc [of k m u w] by (intro exI [of _ "Suc k"]) simp
  qed
qed

lemma login_effect:
  assumes "login w s = (r, s', w')"
  shows "\<exists>k uid key. k \<le> N_RETRY \<and> w' = consumed k ''POST'' login_url w \<and>
           s' = s\<lparr>api_key := key, user_id := uid\<rparr>"
proof -
  obtain r0 w1 where sent: "send_http login_url ''POST'' w = (r0, w1)" by force
  then obtain k where k: "k \<le> N_RETRY" "w1 = consumed k ''POST'' login_url w"
    using send_http_loop_consumes [of N_RETRY "''POST''" login_url w r0 w1]
    by (auto simp add: send_http_def)
  have "w' = w1 \<and> (s' = s \<or> (\<exists>uid. s' = s\<lparr>user_id := uid\<rparr>) \<or>
          (\<exists>uid key. s' = s\<lparr>user_id := uid, api_key := key\<rparr>))"
    using assms sent
    by (auto simp add: login_def Let_def split: sum.splits bool.splits)
  moreover have "s = s\<lparr>api_key := api_key s, user_id := user_id s\<rparr>" by simp
  moreover have "\<And>uid. s\<lparr>user_id := uid\<rparr> = s\<lparr>api_key := api_key s, user_id := uid\<rparr>" by simp
  moreover have "\<And>uid key. s\<lparr>user_id := uid, api_key := key\<rparr> = s\<lparr>api_key := key, user_id := uid\<rparr>" by simp
  ultimately show ?thesis using k by metis
qed

lemma check_credentials_effect:
  assumes "check_credentials w s = (r, s', w')"
  shows "\<exists>k uid key. k \<le> N_RETRY \<and> w' = consumed k ''POST'' login_url w \<and>
           s' = s\<lparr>api_key := key, user_id := uid\<rparr>"
proof (cases "truthy (api_key s)")
  case True
  then have "w' = consumed 0 ''POST'' login_url w" "s' = s\<lparr>api_key := api_key s, user_id := user_id s\<rparr>"
    using assms by (simp_all add: check_credentials_def consumed_0)
  then show ?thesis by blast
next
  case False
  obtain r0 s0 w0 where l: "login w s = (r0, s0, w0)" by (metis prod_cases3)
  then have "s' = s0 \<and> w' = w0"
    using assms False by (auto simp add: check_credentials_def split: sum.splits if_splits)
  then show ?thesis using login_effect [OF l] by simp
qed

lemma deliver_effect:
  "deliver cbs w s = (s', w') \<Longrightarrow>
   w' = w\<lparr>trace := trace w @ map Callback cbs\<rparr> \<and> s' = fold run_callback cbs s"
proof (induction cbs arbitrary: w s)
  case Nil
  then show ?case by simp
next
  case (Cons cb cbs)
  from Cons.prems have "deliver cbs (log (Callback cb) w) (run_callback cb s) = (s', w')"
    by simp
  from Cons.IH [OF this] show ?case by (simp add: log_def)
qed

lemma background_effect:
  "background w s = (s', w') \<Longrightarrow>
   w' = w\<lparr>inbound := advance (inbound w), trace := trace w @ map Callback (inbound w 0)\<rparr> \<and>
   s' = fold run_callback (inbound w 0) s"
  by (auto simp add: background_def dest: deliver_effect)

lemma open_wss_thread_sleeps:
  assumes "open_wss_thread w s = (r, s', w')"
  shows "sleeps (trace w') = sleeps (trace w) \<and> slept_ms (trace w') = slept_ms (trace w)"
proof -
  obtain r1 s1 w1 where c: "check_credentials w s = (r1, s1, w1)" by (metis prod_cases3)
  from check_credentials_effect [OF c] have
    w1: "sleeps (trace w1) = sleeps (trace w) \<and> slept_ms (trace w1) = slept_ms (trace w)"
    by (auto simp add: consumed_def sleeps_append slept_ms_append sleeps_requests slept_ms_requests)
  show ?thesis
    using assms c w1
    by (auto simp add: open_wss_thread_def setup_failed_def authenticate_def subscribe_def
        log_def Let_def sleeps_append slept_ms_append sleeps_callbacks slept_ms_callbacks
        sleeps_def slept_ms_def
        split: sum.splits bool.splits call_outcome.splits thread_outcome.splits if_splits prod.splits
        dest!: background_effect)
qed


lemma await_connection_sleeps:
  "await_connection n w s = (ok, s', w') \<Longrightarrow>
   (ok \<longrightarrow> sleeps (trace w') < sleeps (trace w) + n) \<and>
   (\<not> ok \<longrightarrow> sleeps (trace w') = sleeps (trace w) + n) \<and>
   slept_ms (trace w') + 500 * sleeps (trace w) = slept_ms (trace w) + 500 * sleeps (trace w')"
proof (induction n arbitrary: w s)
  case 0
  then show ?case by simp
next
  case (Suc n)
  show ?case
  proof (cases "socket_state s = SOCK_CONNECTED")
    case True
    then show ?thesis using Suc.prems by simp
  next
    case False
    obtain s1 w1 where b: "background (log (Sleep 500) w) s = (s1, w1)" by force
    then have rest: "await_connection n w1 s1 = (ok, s', w')"
      using Suc.prems False by simp
    have w1: "sleeps (trace w1) = Suc (sleeps (trace w))" "slept_ms (trace w1) = slept_ms (trace w) + 500"
      using background_effect [OF b]
      by (simp_all add: log_def sleeps_append slept_ms_append sleeps_callbacks slept_ms_callbacks)
        (simp_all add: sleeps_def slept_ms_def)
    from Suc.IH [OF rest] show ?thesis using w1 by auto
  qed
qed

lemma fifteen:
  "(15::nat) = Suc (Suc (Suc (Suc (Suc (Suc (Suc (Suc (Suc (Suc (Suc (Suc (Suc (Suc (Suc 0))))))))))))))"
  by simp

text \<open>
  A connection attempt in a world where the socket never opens: every poll finds the
  state closed, the fifteen sleeps pass, the call returns false and the state is still
  closed.
\<close>

lemma connect_wss_never_opened:
  "connect_wss (serving RequestError) keyed_ctrl =
     (Inr False, fst (snd (connect_wss (serving RequestError) keyed_ctrl)),
      snd (snd (connect_wss (serving RequestError) keyed_ctrl))) \<and>
   socket_state (fst (snd (connect_wss (serving RequestError) keyed_ctrl))) = SOCK_CLOSE \<and>
   sleeps (trace (snd (snd (connect_wss (serving RequestError) keyed_ctrl)))) = 15 \<and>
   sleeps (trace (serving RequestError)) = 0"
  by (simp add: connect_wss_def open_wss_thread_def check_credentials_def keyed_ctrl_def
      init_wss_ctrl_def serving_def authenticate_def subscribe_def
      background_def setup_failed_def log_def advance_def Let_def fifteen sleeps_def)

section \<open>Waiting for the connection\<close>

text \<open>
  Claim C6, as stated, fails twice. After a timeout (fifteen sleeps, false returned) the
  state is closed as before, not forced to the error state; and an exception of the setup
  that is not a \<^verbatim>\<open>WebSocketException\<close>, here an \<^verbatim>\<open>AttributeError\<close> from
  \<^verbatim>\<open>authenticate()\<close>, leaves \<^verbatim>\<open>connect_wss\<close> as an exception, with the state closed as
  before.
\<close>

theorem connect_wss_timeout_keeps_state:
  "fst (connect_wss (serving RequestError) keyed_ctrl) = Inr False \<and>
   socket_state (fst (snd (connect_wss (serving RequestError) keyed_ctrl))) = SOCK_CLOSE \<and>
   sleeps (trace (snd (snd (connect_wss (serving RequestError) keyed_ctrl)))) = 15 \<and>
   fst (connect_wss (failing_auth AttributeError) keyed_ctrl) = Inl AttributeError \<and>
   socket_state (fst (snd (connect_wss (failing_auth AttributeError) keyed_ctrl))) = SOCK_CLOSE"
  by (simp add: connect_wss_def open_wss_thread_def check_credentials_def keyed_ctrl_def
      init_wss_ctrl_def serving_def failing_auth_def authenticate_def subscribe_def
      background_def setup_failed_def log_def advance_def Let_def fifteen sleeps_def)

text \<open>
  Claim C6, amended. A call of \<^verbatim>\<open>connect_wss\<close> sleeps at most 15 times, 7.5 seconds in
  all, and a call that has slept 15 times (the timeout) returns false. When the call is
  made while not connected, the credentials check passes and the socket setup raises,
  then for a \<^verbatim>\<open>WebSocketException\<close> the call returns false with \<^verbatim>\<open>socket_state\<close> forced
  to the error state, and any other exception leaves the call as an exception.
\<close>

theorem connect_wss_bounded_wait:
  assumes "connect_wss w s = (r, s', w')"
  shows "sleeps (trace w') \<le> sleeps (trace w) + 15 \<and>
         slept_ms (trace w') \<le> slept_ms (trace w) + 7500 \<and>
         (sleeps (trace w') = sleeps (trace w) + 15 \<longrightarrow> r = Inr False) \<and>
         (\<forall>e. socket_state s \<noteq> SOCK_CONNECTED \<and> fst (check_credentials w s) = Inr True \<and>
               setup_raises e w \<longrightarrow>
              (if is_websocket_exception e then r = Inr False \<and> socket_state s' = SOCK_ERROR
               else r = Inl e))"
proof -
  have waits: "sleeps (trace w') \<le> sleeps (trace w) + 15 \<and>
         slept_ms (trace w') \<le> slept_ms (trace w) + 7500 \<and>
         (sleeps (trace w') = sleeps (trace w) + 15 \<longrightarrow> r = Inr False)"
  proof (cases "socket_state s = SOCK_CONNECTED")
    case True
    then show ?thesis using assms by (simp add: connect_wss_def)
  next
    case False
    obtain r1 s1 w1 where o: "open_wss_thread w s = (r1, s1, w1)" by (metis prod_cases3)
    note o1 = open_wss_thread_sleeps [OF o]
    show ?thesis
    proof (cases "r1 = Inr True")
      case True
      obtain ok s2 w2 where a: "await_connection 15 w1 s1 = (ok, s2, w2)" by (metis prod_cases3)
      then have "r = Inr ok" "w' = w2"
        using assms False o True by (simp_all add: connect_wss_def)
      then show ?thesis using await_connection_sleeps [OF a] o1 by auto
    next
      case False
      then have "w' = w1"
        using assms \<open>socket_state s \<noteq> SOCK_CONNECTED\<close> o
        by (auto simp add: connect_wss_def split: sum.splits bool.splits)
      then show ?thesis using o1 by simp
    qed
  qed
  have fails: "if is_websocket_exception e then r = Inr False \<and> socket_state s' = SOCK_ERROR else r = Inl e"
    if h: "socket_state s \<noteq> SOCK_CONNECTED \<and> fst (check_credentials w s) = Inr True \<and> setup_raises e w"
    for e
  proof -
    obtain s1 w1 where c: "check_credentials w s = (Inr True, s1, w1)"
      using h by (metis fst_conv prod_cases3)
    from check_credentials_effect [OF c] obtain k where "w1 = consumed k ''POST'' login_url w"
      by blast
    then have same: "ws_new w1 = ws_new w" "auth w1 = auth w" "sub w1 = sub w" "thread w1 = thread w"
      by (simp_all add: consumed_def)
    have "open_wss_thread w s = (if is_websocket_exception e then Inr False else Inl e,
            fst (snd (open_wss_thread w s)), snd (snd (open_wss_thread w s))) \<and>
          (is_websocket_exception e \<longrightarrow> socket_state (fst (snd (open_wss_thread w s))) = SOCK_ERROR)"
      using h c same
      by (auto simp add: open_wss_thread_def setup_raises_def setup_failed_def authenticate_def
          subscribe_def log_def Let_def)
    then show ?thesis
      using assms h
      by (cases "open_wss_thread w s") (auto simp add: connect_wss_def split: if_splits)
  qed
  show ?thesis using waits fails by blast
qed

theorem connect_wss_bounded_wait_witness:
  "fst (connect_wss (serving RequestError) keyed_ctrl) = Inr False \<and>
   fst (connect_wss (failing_auth WebSocketException) keyed_ctrl) = Inr False \<and>
   socket_state (fst (snd (connect_wss (failing_auth WebSocketException) keyed_ctrl))) = SOCK_ERROR \<and>
   fst (connect_wss (failing_auth RuntimeError) keyed_ctrl) = Inl RuntimeError"
proof -
  have idle: "fst (connect_wss (serving RequestError) keyed_ctrl) = Inr False"
    using connect_wss_never_opened
      connect_wss_bounded_wait [of "serving RequestError" keyed_ctrl
        "fst (connect_wss (serving RequestError) keyed_ctrl)"
        "fst (snd (connect_wss (serving RequestError) keyed_ctrl))"
        "snd (snd (connect_wss (serving RequestError) keyed_ctrl))"]
    by simp
  have closed: "socket_state keyed_ctrl \<noteq> SOCK_CONNECTED"
    by (simp add: keyed_ctrl_def init_wss_ctrl_def)
  have keyed: "fst (check_credentials (failing_auth e) keyed_ctrl) = Inr True" for e
    by (simp add: check_credentials_def keyed_ctrl_def init_wss_ctrl_def)
  have raises: "setup_raises e (failing_auth e)" for e
    by (simp add: setup_raises_def failing_auth_def serving_def)
  have ws: "fst (connect_wss (failing_auth WebSocketException) keyed_ctrl) = Inr False \<and>
      socket_state (fst (snd (connect_wss (failing_auth WebSocketException) keyed_ctrl))) = SOCK_ERROR"
    using closed keyed [of WebSocketException] raises [of WebSocketException]
      connect_wss_bounded_wait [of "failing_auth WebSocketException" keyed_ctrl
        "fst (connect_wss (failing_auth WebSocketException) keyed_ctrl)"
        "fst (snd (connect_wss (failing_auth WebSocketException) keyed_ctrl))"
        "snd (snd (connect_wss (failing_auth WebSocketException) keyed_ctrl))"]
    by simp
  have other: "fst (connect_wss (failing_auth RuntimeError) keyed_ctrl) = Inl RuntimeError"
    using closed keyed [of RuntimeError] raises [of RuntimeError]
      connect_wss_bounded_wait [of "failing_auth RuntimeError" keyed_ctrl
        "fst (connect_wss (failing_auth RuntimeError) keyed_ctrl)"
        "fst (snd (connect_wss (failing_auth RuntimeError) keyed_ctrl))"
        "snd (snd (connect_wss (failing_auth RuntimeError) keyed_ctrl))"]
    by simp
  show ?thesis using idle ws other by simp
qed

section \<open>Publishing and the dead-link counter\<close>

lemma messages_append: "messages (tr @ ext) = messages tr + messages ext"
  by (simp add: messages_def)

lemma calm_refl: "calm w s w s"
  by (simp add: calm_def)

lemma calm_trans: "calm w s w1 s1 \<Longrightarrow> calm w1 s1 w2 s2 \<Longrightarrow> calm w s w2 s2"
  by (auto simp add: calm_def messages_append)

lemma calm_log: "\<not> is_message a \<Longrightarrow> sent_counter s' = sent_counter s \<Longrightarrow> ws s' = ws s \<Longrightarrow>
  trace w' = trace w @ [a] \<Longrightarrow> calm w s w' s'"
  by (simp add: calm_def messages_def)

lemma calm_requests:
  "w' = consumed k m u w \<Longrightarrow> sent_counter s' = sent_counter s \<Longrightarrow> ws s' = ws s \<Longrightarrow> calm w s w' s'"
  by (simp add: calm_def consumed_def messages_def)

lemma calm_deliver: "deliver cbs w s = (s', w') \<Longrightarrow> calm w s w' s'"
proof (induction cbs arbitrary: w s)
  case Nil
  then show ?case by (simp add: calm_refl)
next
  case (Cons cb cbs)
  from Cons.prems have rest: "deliver cbs (log (Callback cb) w) (run_callback cb s) = (s', w')"
    by simp
  have later: "calm (log (Callback cb) w) (run_callback cb s) w' s'"
    by (rule Cons.IH [OF rest])
  show ?case
  proof (cases cb)
    case (OnMessage m)
    then show ?thesis using later
      by (cases m) (auto simp add: calm_def log_def messages_def on_message_def guarded_def
          on_error_def)
  qed (use later in \<open>auto simp add: calm_def log_def messages_def on_open_def on_close_def
        on_error_def on_pong_def guarded_def\<close>)
qed

lemma calm_background: "background w s = (s', w') \<Longrightarrow> calm w s w' s'"
proof -
  assume "background w s = (s', w')"
  then have "calm (w\<lparr>inbound := advance (inbound w)\<rparr>) s w' s'"
    by (simp add: background_def calm_deliver)
  then show ?thesis by (simp add: calm_def)
qed

lemma calm_check_credentials: "check_credentials w s = (r, s', w') \<Longrightarrow> calm w s w' s'"
  by (drule check_credentials_effect) (auto intro: calm_requests)

lemma calm_open_wss_thread:
  assumes "open_wss_thread w s = (r, s', w')"
  shows "calm w s w' s'"
proof -
  obtain r1 s1 w1 where c: "check_credentials w s = (r1, s1, w1)" by (metis prod_cases3)
  note c1 = calm_check_credentials [OF c]
  have "calm w1 s1 w' s'"
    using assms c
    by (auto simp add: open_wss_thread_def setup_failed_def authenticate_def subscribe_def
        log_def Let_def calm_def messages_def
        split: sum.splits bool.splits call_outcome.splits thread_outcome.splits if_splits prod.splits
        dest!: calm_background)
  then show ?thesis using c1 by (rule calm_trans [rotated])
qed

lemma calm_await_connection: "await_connection n w s = (ok, s', w') \<Longrightarrow> calm w s w' s'"
proof (induction n arbitrary: w s)
  case 0
  then show ?case by (simp add: calm_refl)
next
  case (Suc n)
  show ?case
  proof (cases "socket_state s = SOCK_CONNECTED")
    case True
    then show ?thesis using Suc.prems by (simp add: calm_refl)
  next
    case False
    obtain s1 w1 where b: "background (log (Sleep 500) w) s = (s1, w1)" by force
    then have rest: "await_connection n w1 s1 = (ok, s', w')"
      using Suc.prems False by simp
    have "calm w s (log (Sleep 500) w) s" by (rule calm_log [of "Sleep 500"]) (simp_all add: log_def)
    then have "calm w s w1 s1" using calm_background [OF b] by (rule calm_trans)
    then show ?thesis using Suc.IH [OF rest] by (rule calm_trans)
  qed
qed

lemma calm_connect_wss:
  assumes "connect_wss w s = (r, s', w')"
  shows "calm w s w' s'"
proof (cases "socket_state s = SOCK_CONNECTED")
  case True
  then show ?thesis using assms by (simp add: connect_wss_def calm_refl)
next
  case False
  obtain r1 s1 w1 where o: "open_wss_thread w s = (r1, s1, w1)" by (metis prod_cases3)
  note o1 = calm_open_wss_thread [OF o]
  show ?thesis
  proof (cases "r1 = Inr True")
    case True
    obtain ok s2 w2 where a: "await_connection 15 w1 s1 = (ok, s2, w2)" by (metis prod_cases3)
    then have "s' = s2" "w' = w2"
      using assms False o True by (simp_all add: connect_wss_def)
    then show ?thesis using calm_await_connection [OF a] o1 by (auto intro: calm_trans)
  next
    case False
    then have "w' = w1" "s' = s1"
      using assms \<open>socket_state s \<noteq> SOCK_CONNECTED\<close> o
      by (auto simp add: connect_wss_def split: sum.splits bool.splits)
    then show ?thesis using o1 by simp
  qed
qed

lemma publish_loop_counts:
  "publish_loop n m w s = (r, s', w') \<Longrightarrow>
   (\<exists>ext. trace w' = trace w @ ext) \<and>
   (messages (trace w') = messages (trace w) \<longrightarrow>
      sent_counter s' = sent_counter s + (if r = Inr True then 1 else 0)) \<and>
   (r = Inr True \<longrightarrow> ws s' \<noteq> None)"
proof (induction n arbitrary: w s)
  case 0
  then show ?case by auto
next
  case (Suc n)
  show ?case
  proof (cases "socket_state s = SOCK_CONNECTED")
    case True
    show ?thesis
    proof (cases "ws s")
      case None
      then show ?thesis using Suc.prems True by auto
    next
      case (Some h)
      let ?w1 = "w\<lparr>send := advance (send w)\<rparr>"
      show ?thesis
      proof (cases "send w 0")
        case Returns
        then show ?thesis using Suc.prems True Some
          by (auto simp add: Let_def log_def messages_def)
      next
        case (Raises e)
        show ?thesis
        proof (cases "e = WebSocketConnectionClosedException")
          case True
          then have rest: "publish_loop n m ?w1 (s\<lparr>socket_state := SOCK_CLOSE\<rparr>) = (r, s', w')"
            using Suc.prems \<open>socket_state s = SOCK_CONNECTED\<close> Some Raises by (simp add: Let_def)
          from Suc.IH [OF rest] show ?thesis by simp
        next
          case False
          then show ?thesis using Suc.prems True Some Raises by (auto simp add: Let_def)
        qed
      qed
    qed
  next
    case False
    obtain r1 s1 w1 where c: "connect_wss w s = (r1, s1, w1)" by (metis prod_cases3)
    note c1 = calm_connect_wss [OF c]
    show ?thesis
    proof (cases r1)
      case (Inl e)
      then have "r = Inl e" "s' = s1" "w' = w1" using Suc.prems False c by simp_all
      then show ?thesis using c1 by (auto simp add: calm_def)
    next
      case (Inr ok)
      then have rest: "publish_loop n m w1 s1 = (r, s', w')" using Suc.prems False c by simp
      from Suc.IH [OF rest] c1 show ?thesis
        by (auto simp add: calm_def messages_append)
    qed
  qed
qed

lemma publish_wss_counts:
  assumes "publish_wss m w s = (Inr True, s', w')" and "sent_counter s < 5"
  shows "(\<exists>ext. trace w' = trace w @ ext) \<and>
         (messages (trace w') = messages (trace w) \<longrightarrow> sent_counter s' = sent_counter s + 1) \<and>
         ws s' \<noteq> None"
  using assms publish_loop_counts [of N_RETRY m w s "Inr True" s' w']
  by (simp add: publish_wss_def)


lemma publish_wss_grows:
  assumes "publish_wss m w s = (r, s', w')"
  shows "\<exists>ext. trace w' = trace w @ ext"
proof (cases "sent_counter s \<ge> 5")
  case False
  then show ?thesis using assms publish_loop_counts [of N_RETRY m w s r s' w']
    by (simp add: publish_wss_def)
next
  case True
  show ?thesis
  proof (cases "ws s")
    case None
    then show ?thesis using assms True by (simp add: publish_wss_def)
  next
    case (Some h)
    then have "publish_loop N_RETRY m (log WsClose w) (s\<lparr>sent_counter := 0, socket_state := SOCK_CLOSE\<rparr>) = (r, s', w')"
      using assms True by (simp add: publish_wss_def)
    from publish_loop_counts [OF this] show ?thesis by (auto simp add: log_def)
  qed
qed

lemma publish_wss_messages:
  "publish_wss m w s = (r, s', w') \<Longrightarrow> messages (trace w) \<le> messages (trace w')"
  by (drule publish_wss_grows) (auto simp add: messages_append)

text \<open>
  Claim C8. Take five calls of \<^verbatim>\<open>publish_wss\<close> in a row that each return true, starting
  with the counter at 0 and with no inbound message processed from the first call to the
  end of the fifth. Then the counter is 5, and the next call is the retry loop run from
  the state with the counter reset to 0 and \<^verbatim>\<open>socket_state\<close> closed, in the world where
  the socket has been closed: the close is the first action of the call, before any send
  or reconnection of the loop.
\<close>

theorem publish_wss_forces_reconnect:
  assumes "sent_counter s0 = 0"
    and "publish_wss m1 w0 s0 = (Inr True, s1, w1)"
    and "publish_wss m2 w1 s1 = (Inr True, s2, w2)"
    and "publish_wss m3 w2 s2 = (Inr True, s3, w3)"
    and "publish_wss m4 w3 s3 = (Inr True, s4, w4)"
    and "publish_wss m5 w4 s4 = (Inr True, s5, w5)"
    and "messages (trace w5) = messages (trace w0)"
  shows "sent_counter s5 = 5 \<and>
         publish_wss m w5 s5 =
           publish_loop N_RETRY m (log WsClose w5) (s5\<lparr>sent_counter := 0, socket_state := SOCK_CLOSE\<rparr>) \<and>
         (\<exists>ext. trace (snd (snd (publish_wss m w5 s5))) = trace w5 @ WsClose # ext)"
proof -
  note mono = publish_wss_messages [OF assms(2)] publish_wss_messages [OF assms(3)]
    publish_wss_messages [OF assms(4)] publish_wss_messages [OF assms(5)]
    publish_wss_messages [OF assms(6)]
  have q1: "messages (trace w1) = messages (trace w0)" using mono assms(7) by linarith
  have q2: "messages (trace w2) = messages (trace w1)" using mono assms(7) by linarith
  have q3: "messages (trace w3) = messages (trace w2)" using mono assms(7) by linarith
  have q4: "messages (trace w4) = messages (trace w3)" using mono assms(7) by linarith
  have q5: "messages (trace w5) = messages (trace w4)" using mono assms(7) by linarith
  have c1: "sent_counter s1 = 1"
    using publish_wss_counts [OF assms(2)] assms(1) q1 by simp
  have c2: "sent_counter s2 = 2"
    using publish_wss_counts [OF assms(3)] c1 q2 by simp
  have c3: "sent_counter s3 = 3"
    using publish_wss_counts [OF assms(4)] c2 q3 by simp
  have c4: "sent_counter s4 = 4"
    using publish_wss_counts [OF assms(5)] c3 q4 by simp
  have c5: "sent_counter s5 = 5" and h: "ws s5 \<noteq> None"
    using publish_wss_counts [OF assms(6)] c4 q5 by simp_all
  let ?loop = "publish_loop N_RETRY m (log WsClose w5) (s5\<lparr>sent_counter := 0, socket_state := SOCK_CLOSE\<rparr>)"
  have eq: "publish_wss m w5 s5 = ?loop"
    using c5 h by (auto simp add: publish_wss_def)
  have "?loop = (fst ?loop, fst (snd ?loop), snd (snd ?loop))" by simp
  from publish_loop_counts [OF this]
  have "\<exists>ext. trace (snd (snd ?loop)) = trace w5 @ WsClose # ext" by (auto simp add: log_def)
  then show ?thesis using c5 eq by simp
qed

lemma advance_const: "advance (\<lambda>i. c) = (\<lambda>i. c)"
  by (simp add: advance_def)

lemma publish_on_open_socket:
  "k < 5 \<Longrightarrow> publish_wss JNull (sent_world k) (connected_ctrl\<lparr>sent_counter := int k\<rparr>) =
     (Inr True, connected_ctrl\<lparr>sent_counter := int (Suc k)\<rparr>, sent_world (Suc k))"
  by (simp add: publish_wss_def N_RETRY_Suc connected_ctrl_def sent_world_def serving_def
      advance_const log_def Let_def replicate_append_same)

theorem publish_wss_forces_reconnect_witness:
  "publish_wss JNull (sent_world 5) (connected_ctrl\<lparr>sent_counter := 5\<rparr>) =
     publish_loop N_RETRY JNull (log WsClose (sent_world 5))
       (connected_ctrl\<lparr>sent_counter := 0, socket_state := SOCK_CLOSE\<rparr>) \<and>
   messages (trace (sent_world 5)) = messages (trace (sent_world 0))"
proof -
  let ?s = "\<lambda>k. connected_ctrl\<lparr>sent_counter := int k\<rparr>"
  let ?one = "Suc 0" and ?two = "Suc (Suc 0)" and ?three = "Suc (Suc (Suc 0))"
    and ?four = "Suc (Suc (Suc (Suc 0)))" and ?five = "Suc (Suc (Suc (Suc (Suc 0))))"
  have five: "?five = 5" by simp
  have quiet: "messages (trace (sent_world ?five)) = messages (trace (sent_world 0))"
    by (simp add: sent_world_def messages_def)
  have start: "sent_counter (?s 0) = 0" by simp
  have p1: "publish_wss JNull (sent_world 0) (?s 0) = (Inr True, ?s ?one, sent_world ?one)"
    by (rule publish_on_open_socket) simp
  have p2: "publish_wss JNull (sent_world ?one) (?s ?one) = (Inr True, ?s ?two, sent_world ?two)"
    by (rule publish_on_open_socket) simp
  have p3: "publish_wss JNull (sent_world ?two) (?s ?two) = (Inr True, ?s ?three, sent_world ?three)"
    by (rule publish_on_open_socket) simp
  have p4: "publish_wss JNull (sent_world ?three) (?s ?three) = (Inr True, ?s ?four, sent_world ?four)"
    by (rule publish_on_open_socket) simp
  have p5: "publish_wss JNull (sent_world ?four) (?s ?four) = (Inr True, ?s ?five, sent_world ?five)"
    by (rule publish_on_open_socket) simp
  from publish_wss_forces_reconnect [OF start p1 p2 p3 p4 p5 quiet, of JNull]
  have "publish_wss JNull (sent_world ?five) (?s ?five) =
     publish_loop N_RETRY JNull (log WsClose (sent_world ?five))
       (connected_ctrl\<lparr>sent_counter := 0, socket_state := SOCK_CLOSE\<rparr>)"
    by simp
  then show ?thesis using quiet unfolding five by simp
qed


section \<open>Frames before the thread\<close>

lemma append_devices_effect:
  "append_devices items s = (r, s') \<Longrightarrow> \<exists>ds. s' = s\<lparr>devices := ds\<rparr>"
proof (induction items arbitrary: s)
  case Nil
  then have "s' = s\<lparr>devices := devices s\<rparr>" by simp
  then show ?case by blast
next
  case (Cons x items)
  show ?case
  proof (cases "make_device s x")
    case (Inl e)
    then have "s' = s\<lparr>devices := devices s\<rparr>" using Cons.prems by simp
    then show ?thesis by blast
  next
    case (Inr d)
    then have "append_devices items (s\<lparr>devices := devices s @ [d]\<rparr>) = (r, s')"
      using Cons.prems by simp
    from Cons.IH [OF this] show ?thesis by auto
  qed
qed

lemma get_devices_effect:
  assumes "get_devices w s = (r, s', w')"
  shows "\<exists>k ds. w' = consumed k ''GET'' devices_url w \<and> s' = s\<lparr>devices := ds\<rparr>"
proof -
  obtain r0 w1 where sent: "send_http devices_url ''GET'' w = (r0, w1)" by force
  then obtain k where k: "w1 = consumed k ''GET'' devices_url w"
    using send_http_loop_consumes [of N_RETRY "''GET''" devices_url w r0 w1]
    by (auto simp add: send_http_def)
  have same: "s = s\<lparr>devices := devices s\<rparr>" by simp
  have "w' = w1 \<and> (s' = s \<or> (\<exists>ds. s' = s\<lparr>devices := ds\<rparr>))"
    using assms sent
    by (auto simp add: get_devices_def split: sum.splits if_splits prod.splits
        dest!: append_devices_effect)
  then show ?thesis using k same by metis
qed

lemma framed_quiet: "ThreadStart \<notin> set ext \<Longrightarrow> framed ext"
  by (auto simp add: framed_def)

lemma heard_quiet: "\<forall>a\<in>set ext. \<not> is_inbound a \<Longrightarrow> heard ext"
  by (auto simp add: heard_def)

lemma framed_append: "framed tr \<Longrightarrow> framed ext \<Longrightarrow> framed (tr @ ext)"
  unfolding framed_def
proof (intro allI impI)
  fix pre post
  assume a: "\<forall>pre post. tr = pre @ ThreadStart # post \<longrightarrow> (\<exists>before. pre = before @ [AuthFrame, SubFrame])"
    and b: "\<forall>pre post. ext = pre @ ThreadStart # post \<longrightarrow> (\<exists>before. pre = before @ [AuthFrame, SubFrame])"
    and e: "tr @ ext = pre @ ThreadStart # post"
  from e consider (left) us where "tr = pre @ us" "us @ ext = ThreadStart # post"
    | (right) us where "tr @ us = pre" "ext = us @ ThreadStart # post"
    by (auto simp add: append_eq_append_conv2)
  then show "\<exists>before. pre = before @ [AuthFrame, SubFrame]"
  proof cases
    case left
    show ?thesis
    proof (cases us)
      case Nil
      then have "ext = [] @ ThreadStart # post" using left by simp
      then have "\<exists>before. [] = before @ [AuthFrame, SubFrame]" using b by blast
      then show ?thesis by simp
    next
      case (Cons x xs)
      then have "tr = pre @ ThreadStart # xs" using left by simp
      then show ?thesis using a by blast
    qed
  next
    case right
    then obtain before where "us = before @ [AuthFrame, SubFrame]" using b by blast
    then have "pre = (tr @ before) @ [AuthFrame, SubFrame]" using right by simp
    then show ?thesis by blast
  qed
qed

lemma framed_session: "framed [WsCreate, AuthFrame, SubFrame, ThreadStart]"
  unfolding framed_def
proof (intro allI impI)
  fix pre post
  assume "[WsCreate, AuthFrame, SubFrame, ThreadStart] = pre @ ThreadStart # post"
  then have "pre = [WsCreate] @ [AuthFrame, SubFrame]"
    by (auto simp add: Cons_eq_append_conv)
  then show "\<exists>before. pre = before @ [AuthFrame, SubFrame]" by blast
qed

lemma heard_append: "heard tr \<Longrightarrow> heard ext \<Longrightarrow> heard (tr @ ext)"
  unfolding heard_def
proof (intro allI impI)
  fix pre cb post
  assume a: "\<forall>pre cb post. tr = pre @ Callback cb # post \<longrightarrow> ThreadStart \<in> set pre"
    and b: "\<forall>pre cb post. ext = pre @ Callback cb # post \<longrightarrow> ThreadStart \<in> set pre"
    and e: "tr @ ext = pre @ Callback cb # post"
  from e consider (left) us where "tr = pre @ us" "us @ ext = Callback cb # post"
    | (right) us where "tr @ us = pre" "ext = us @ Callback cb # post"
    by (auto simp add: append_eq_append_conv2)
  then show "ThreadStart \<in> set pre"
  proof cases
    case left
    show ?thesis
    proof (cases us)
      case Nil
      then have "ext = [] @ Callback cb # post" using left by simp
      then have "ThreadStart \<in> set []" using b by blast
      then show ?thesis by simp
    next
      case (Cons x xs)
      then have "tr = pre @ Callback cb # xs" using left by simp
      then show ?thesis using a by blast
    qed
  next
    case right
    then have "ThreadStart \<in> set us" using b by blast
    then show ?thesis using right by auto
  qed
qed

lemma heard_later: "heard tr \<Longrightarrow> ThreadStart \<in> set tr \<Longrightarrow> heard (tr @ ext)"
  unfolding heard_def
proof (intro allI impI)
  fix pre cb post
  assume a: "\<forall>pre cb post. tr = pre @ Callback cb # post \<longrightarrow> ThreadStart \<in> set pre"
    and t: "ThreadStart \<in> set tr"
    and e: "tr @ ext = pre @ Callback cb # post"
  from e consider (left) us where "tr = pre @ us" "us @ ext = Callback cb # post"
    | (right) us where "tr @ us = pre" "ext = us @ Callback cb # post"
    by (auto simp add: append_eq_append_conv2)
  then show "ThreadStart \<in> set pre"
  proof cases
    case left
    show ?thesis
    proof (cases us)
      case Nil
      then show ?thesis using left t by simp
    next
      case (Cons x xs)
      then have "tr = pre @ Callback cb # xs" using left by simp
      then show ?thesis using a by blast
    qed
  next
    case right
    then show ?thesis using t by auto
  qed
qed

lemma requests_quiet:
  "list_all is_request reqs \<Longrightarrow> ThreadStart \<notin> set reqs \<and> (\<forall>a\<in>set reqs. \<not> is_inbound a)"
  by (induction reqs) (auto elim: is_request.elims)

lemma replicate_requests: "list_all is_request (replicate k (HttpRequest m u))"
  by (induction k) simp_all

lemma settled_quiet:
  assumes "settled w s" and "trace w' = trace w @ ext" and "ThreadStart \<notin> set ext"
    and "\<forall>a\<in>set ext. \<not> is_inbound a"
    and "socket_state s' = SOCK_CONNECTED \<longrightarrow> socket_state s = SOCK_CONNECTED"
  shows "settled w' s'"
  using assms
  by (auto simp add: settled_def intro: framed_append framed_quiet heard_append heard_quiet)

lemma settled_after_start:
  assumes "settled w s" and "trace w' = trace w @ ext" and "ThreadStart \<notin> set ext"
    and "ThreadStart \<in> set (trace w)"
  shows "settled w' s'"
  using assms
  by (auto simp add: settled_def intro: framed_append framed_quiet heard_later)

lemma settled_requests:
  assumes "settled w s" and "w' = consumed k m u w" and "socket_state s' = socket_state s"
  shows "settled w' s'"
proof (rule settled_quiet [OF assms(1)])
  show "trace w' = trace w @ replicate k (HttpRequest m u)" using assms(2) by (simp add: consumed_def)
qed (use assms(3) in \<open>auto\<close>)

lemma await_connection_ext:
  "await_connection n w s = (ok, s', w') \<Longrightarrow> \<exists>ext. trace w' = trace w @ ext \<and> ThreadStart \<notin> set ext"
proof (induction n arbitrary: w s)
  case 0
  then show ?case by simp
next
  case (Suc n)
  show ?case
  proof (cases "socket_state s = SOCK_CONNECTED")
    case True
    then show ?thesis using Suc.prems by simp
  next
    case False
    obtain s1 w1 where b: "background (log (Sleep 500) w) s = (s1, w1)" by force
    then have rest: "await_connection n w1 s1 = (ok, s', w')"
      using Suc.prems False by simp
    from Suc.IH [OF rest] obtain ext where "trace w' = trace w1 @ ext" "ThreadStart \<notin> set ext"
      by blast
    moreover have "trace w1 = trace w @ (Sleep 500 # map Callback (inbound w 0))"
      using background_effect [OF b] by (simp add: log_def)
    ultimately have "trace w' = trace w @ (Sleep 500 # map Callback (inbound w 0) @ ext) \<and>
        ThreadStart \<notin> set (Sleep 500 # map Callback (inbound w 0) @ ext)"
      by auto
    then show ?thesis by blast
  qed
qed

lemma open_wss_thread_shape:
  assumes "open_wss_thread w s = (r, s', w')"
  shows "\<exists>reqs. list_all is_request reqs \<and>
           ((\<exists>quiet. trace w' = trace w @ reqs @ quiet \<and> pristine quiet \<and> r \<noteq> Inr True \<and>
                (socket_state s' = SOCK_CONNECTED \<longrightarrow> socket_state s = SOCK_CONNECTED)) \<or>
            (\<exists>cbs. trace w' = trace w @ reqs @ [WsCreate, AuthFrame, SubFrame, ThreadStart] @ map Callback cbs))"
proof -
  obtain r1 s1 w1 where c: "check_credentials w s = (r1, s1, w1)" by (metis prod_cases3)
  from check_credentials_effect [OF c] obtain k where
    w1: "trace w1 = trace w @ replicate k (HttpRequest ''POST'' login_url)"
    and s1: "socket_state s1 = socket_state s"
    by (auto simp add: consumed_def)
  have "((trace w' = trace w1 \<or> trace w' = trace w1 @ [WsCreate] \<or>
          trace w' = trace w1 @ [WsCreate, AuthFrame] \<or>
          trace w' = trace w1 @ [WsCreate, AuthFrame, SubFrame]) \<and> r \<noteq> Inr True \<and>
         (socket_state s' = SOCK_CONNECTED \<longrightarrow> socket_state s1 = SOCK_CONNECTED)) \<or>
        (\<exists>cbs. trace w' = trace w1 @ [WsCreate, AuthFrame, SubFrame, ThreadStart] @ map Callback cbs)"
    using assms c
    by (auto simp add: open_wss_thread_def setup_failed_def authenticate_def subscribe_def
        log_def Let_def
        split: sum.splits bool.splits call_outcome.splits thread_outcome.splits if_splits prod.splits
        dest!: background_effect)
  then consider (quiet) quiet where "trace w' = trace w1 @ quiet" "pristine quiet" "r \<noteq> Inr True"
      "socket_state s' = SOCK_CONNECTED \<longrightarrow> socket_state s1 = SOCK_CONNECTED"
    | (go) cbs where "trace w' = trace w1 @ [WsCreate, AuthFrame, SubFrame, ThreadStart] @ map Callback cbs"
  proof (elim disjE conjE exE)
    assume "trace w' = trace w1" and rest: "r \<noteq> Inr True"
      "socket_state s' = SOCK_CONNECTED \<longrightarrow> socket_state s1 = SOCK_CONNECTED"
    then have "trace w' = trace w1 @ []" "pristine []" by (simp_all add: pristine_def)
    then show ?thesis using rest that(1) by blast
  next
    assume "trace w' = trace w1 @ [WsCreate]" and rest: "r \<noteq> Inr True"
      "socket_state s' = SOCK_CONNECTED \<longrightarrow> socket_state s1 = SOCK_CONNECTED"
    moreover have "pristine [WsCreate]" by (simp add: pristine_def)
    ultimately show ?thesis using that(1) by blast
  next
    assume "trace w' = trace w1 @ [WsCreate, AuthFrame]" and rest: "r \<noteq> Inr True"
      "socket_state s' = SOCK_CONNECTED \<longrightarrow> socket_state s1 = SOCK_CONNECTED"
    moreover have "pristine [WsCreate, AuthFrame]" by (simp add: pristine_def)
    ultimately show ?thesis using that(1) by blast
  next
    assume "trace w' = trace w1 @ [WsCreate, AuthFrame, SubFrame]" and rest: "r \<noteq> Inr True"
      "socket_state s' = SOCK_CONNECTED \<longrightarrow> socket_state s1 = SOCK_CONNECTED"
    moreover have "pristine [WsCreate, AuthFrame, SubFrame]" by (simp add: pristine_def)
    ultimately show ?thesis using that(1) by blast
  next
    fix cbs
    assume "trace w' = trace w1 @ [WsCreate, AuthFrame, SubFrame, ThreadStart] @ map Callback cbs"
    then show ?thesis using that(2) by blast
  qed
  then show ?thesis
  proof cases
    case quiet
    then show ?thesis using w1 s1 replicate_requests [of k "''POST''" login_url]
      by (intro exI [of _ "replicate k (HttpRequest ''POST'' login_url)"]) auto
  next
    case go
    then show ?thesis using w1 replicate_requests [of k "''POST''" login_url]
      by (intro exI [of _ "replicate k (HttpRequest ''POST'' login_url)"]) auto
  qed
qed


lemma pristine_quiet: "pristine quiet \<Longrightarrow> ThreadStart \<notin> set quiet \<and> (\<forall>a\<in>set quiet. \<not> is_inbound a)"
  by (auto simp add: pristine_def list_all_iff)

lemma settled_open_wss_thread:
  assumes "settled w s" and "open_wss_thread w s = (r, s', w')"
  shows "settled w' s' \<and> (r = Inr True \<longrightarrow> ThreadStart \<in> set (trace w'))"
proof -
  from open_wss_thread_shape [OF assms(2)] obtain reqs where reqs: "list_all is_request reqs"
    and shape: "(\<exists>quiet. trace w' = trace w @ reqs @ quiet \<and> pristine quiet \<and> r \<noteq> Inr True \<and>
                (socket_state s' = SOCK_CONNECTED \<longrightarrow> socket_state s = SOCK_CONNECTED)) \<or>
            (\<exists>cbs. trace w' = trace w @ reqs @ [WsCreate, AuthFrame, SubFrame, ThreadStart] @ map Callback cbs)"
    by blast
  note rq = requests_quiet [OF reqs]
  from shape show ?thesis
  proof (elim disjE exE conjE)
    fix quiet
    assume q: "trace w' = trace w @ reqs @ quiet" "pristine quiet" "r \<noteq> Inr True"
      "socket_state s' = SOCK_CONNECTED \<longrightarrow> socket_state s = SOCK_CONNECTED"
    have "settled w' s'"
    proof (rule settled_quiet [OF assms(1)])
      show "trace w' = trace w @ (reqs @ quiet)" using q(1) by simp
    qed (use q rq pristine_quiet [OF q(2)] in \<open>auto\<close>)
    then show ?thesis using q(3) by simp
  next
    fix cbs
    let ?mid = "trace w @ reqs @ [WsCreate, AuthFrame, SubFrame, ThreadStart]"
    assume g: "trace w' = trace w @ reqs @ [WsCreate, AuthFrame, SubFrame, ThreadStart] @ map Callback cbs"
    have f0: "framed (trace w)" and h0: "heard (trace w)" using assms(1) by (simp_all add: settled_def)
    have "framed (reqs @ [WsCreate, AuthFrame, SubFrame, ThreadStart])"
      using rq by (intro framed_append framed_quiet framed_session) simp
    then have f1: "framed ?mid" using f0 framed_append by blast
    have "heard (reqs @ [WsCreate, AuthFrame, SubFrame, ThreadStart])"
      using rq by (intro heard_quiet) auto
    then have h1: "heard ?mid" using h0 heard_append by blast
    have fc: "framed (map Callback cbs)" by (rule framed_quiet) auto
    have "framed (?mid @ map Callback cbs)" using f1 fc by (rule framed_append)
    moreover have "heard (?mid @ map Callback cbs)" using h1 by (rule heard_later) simp
    moreover have "trace w' = ?mid @ map Callback cbs" using g by simp
    ultimately show ?thesis by (simp add: settled_def)
  qed
qed

lemma connect_wss_session:
  assumes "socket_state s \<noteq> SOCK_CONNECTED" and "connect_wss w s = (Inr True, s', w')"
  shows "\<exists>reqs post. trace w' = trace w @ reqs @ [WsCreate, AuthFrame, SubFrame, ThreadStart] @ post \<and>
           list_all is_request reqs \<and> ThreadStart \<notin> set post"
proof -
  obtain r1 s1 w1 where o: "open_wss_thread w s = (r1, s1, w1)" by (metis prod_cases3)
  have r1: "r1 = Inr True"
    using assms o by (auto simp add: connect_wss_def split: sum.splits bool.splits prod.splits)
  obtain ok s2 w2 where a: "await_connection 15 w1 s1 = (ok, s2, w2)" by (metis prod_cases3)
  then have w': "w' = w2" using assms o r1 by (simp add: connect_wss_def)
  from await_connection_ext [OF a] obtain ext where
    ext: "trace w2 = trace w1 @ ext" "ThreadStart \<notin> set ext" by blast
  from open_wss_thread_shape [OF o] r1 obtain reqs cbs where reqs: "list_all is_request reqs"
    and g: "trace w1 = trace w @ reqs @ [WsCreate, AuthFrame, SubFrame, ThreadStart] @ map Callback cbs"
    by auto
  have "trace w' = trace w @ reqs @ [WsCreate, AuthFrame, SubFrame, ThreadStart] @ (map Callback cbs @ ext)"
    using w' ext(1) g by simp
  moreover have "ThreadStart \<notin> set (map Callback cbs @ ext)" using ext(2) by auto
  ultimately show ?thesis using reqs by blast
qed

lemma settled_connect_wss:
  assumes "settled w s" and "connect_wss w s = (r, s', w')"
  shows "settled w' s'"
proof (cases "socket_state s = SOCK_CONNECTED")
  case True
  then show ?thesis using assms by (simp add: connect_wss_def)
next
  case False
  obtain r1 s1 w1 where o: "open_wss_thread w s = (r1, s1, w1)" by (metis prod_cases3)
  note o1 = settled_open_wss_thread [OF assms(1) o]
  show ?thesis
  proof (cases "r1 = Inr True")
    case True
    obtain ok s2 w2 where a: "await_connection 15 w1 s1 = (ok, s2, w2)" by (metis prod_cases3)
    then have "s' = s2" "w' = w2"
      using assms(2) False o True by (simp_all add: connect_wss_def)
    moreover from await_connection_ext [OF a] obtain ext where
      "trace w2 = trace w1 @ ext" "ThreadStart \<notin> set ext" by blast
    ultimately show ?thesis using o1 True by (auto intro: settled_after_start)
  next
    case False
    then have "w' = w1" "s' = s1"
      using assms(2) \<open>socket_state s \<noteq> SOCK_CONNECTED\<close> o
      by (auto simp add: connect_wss_def split: sum.splits bool.splits)
    then show ?thesis using o1 by simp
  qed
qed

lemma settled_publish_loop:
  "settled w s \<Longrightarrow> publish_loop n m w s = (r, s', w') \<Longrightarrow> settled w' s'"
proof (induction n arbitrary: w s)
  case 0
  then show ?case by simp
next
  case (Suc n)
  show ?case
  proof (cases "socket_state s = SOCK_CONNECTED")
    case True
    then have t: "ThreadStart \<in> set (trace w)" using Suc.prems(1) by (simp add: settled_def)
    from publish_loop_counts [OF Suc.prems(2)] obtain ext where ext: "trace w' = trace w @ ext"
      by blast
    have f: "framed (trace w)" and h: "heard (trace w)" using Suc.prems(1) by (simp_all add: settled_def)
    show ?thesis
    proof (cases "ws s")
      case None
      then show ?thesis using Suc.prems True by auto
    next
      case (Some h)
      let ?w1 = "w\<lparr>send := advance (send w)\<rparr>"
      show ?thesis
      proof (cases "send w 0")
        case Returns
        then have "trace w' = trace w @ [WsSend m]" "socket_state s' = socket_state s"
          using Suc.prems(2) True Some by (auto simp add: Let_def log_def)
        then show ?thesis using Suc.prems(1) by (intro settled_quiet [of w s w' "[WsSend m]"]) auto
      next
        case (Raises e)
        show ?thesis
        proof (cases "e = WebSocketConnectionClosedException")
          case True
          then have rest: "publish_loop n m ?w1 (s\<lparr>socket_state := SOCK_CLOSE\<rparr>) = (r, s', w')"
            using Suc.prems(2) \<open>socket_state s = SOCK_CONNECTED\<close> Some Raises by (simp add: Let_def)
          have "settled ?w1 (s\<lparr>socket_state := SOCK_CLOSE\<rparr>)"
            using Suc.prems(1) by (simp add: settled_def)
          then show ?thesis using rest by (rule Suc.IH)
        next
          case False
          then have "w' = ?w1" "s' = s" using Suc.prems(2) True Some Raises by (auto simp add: Let_def)
          then show ?thesis using Suc.prems(1) by (simp add: settled_def)
        qed
      qed
    qed
  next
    case False
    obtain r1 s1 w1 where c: "connect_wss w s = (r1, s1, w1)" by (metis prod_cases3)
    note c1 = settled_connect_wss [OF Suc.prems(1) c]
    show ?thesis
    proof (cases r1)
      case (Inl e)
      then have "s' = s1" "w' = w1" using Suc.prems(2) False c by simp_all
      then show ?thesis using c1 by simp
    next
      case (Inr ok)
      then have rest: "publish_loop n m w1 s1 = (r, s', w')" using Suc.prems(2) False c by simp
      from c1 rest show ?thesis by (rule Suc.IH)
    qed
  qed
qed

lemma settled_publish_wss:
  assumes "settled w s" and "publish_wss m w s = (r, s', w')"
  shows "settled w' s'"
proof (cases "sent_counter s \<ge> 5")
  case False
  then show ?thesis using assms settled_publish_loop [of w s N_RETRY m r s' w']
    by (simp add: publish_wss_def)
next
  case True
  show ?thesis
  proof (cases "ws s")
    case None
    then have "w' = w" "s' = s\<lparr>sent_counter := 0\<rparr>" using assms(2) True by (simp_all add: publish_wss_def)
    then show ?thesis using assms(1) by (simp add: settled_def)
  next
    case (Some h)
    let ?w = "log WsClose w" and ?s = "s\<lparr>sent_counter := 0, socket_state := SOCK_CLOSE\<rparr>"
    have loop: "publish_loop N_RETRY m ?w ?s = (r, s', w')"
      using assms(2) True Some by (simp add: publish_wss_def)
    have "settled ?w ?s"
      using assms(1) by (intro settled_quiet [of w s ?w "[WsClose]"]) (auto simp add: log_def)
    then show ?thesis using loop by (rule settled_publish_loop)
  qed
qed

lemma reachable_settled: "reachable w s \<Longrightarrow> settled w s"
proof (induction rule: reachable.induct)
  case (created w usr pwd key u_id d_id)
  then show ?case by (simp add: settled_def framed_def heard_def init_wss_ctrl_def)
next
  case (logged_in w s r s' w')
  from login_effect [OF logged_in.hyps(2)] logged_in.IH show ?case
    by (auto intro: settled_requests)
next
  case (listed w s l s' w')
  from get_devices_effect [OF listed.hyps(2)] listed.IH show ?case
    by (auto intro: settled_requests)
next
  case (checked w s r s' w')
  from check_credentials_effect [OF checked.hyps(2)] checked.IH show ?case
    by (auto intro: settled_requests)
next
  case (opened w s r s' w')
  from settled_open_wss_thread [OF opened.IH opened.hyps(2)] show ?case by simp
next
  case (connected w s r s' w')
  from settled_connect_wss [OF connected.IH connected.hyps(2)] show ?case .
next
  case (published w s m r s' w')
  from settled_publish_wss [OF published.IH published.hyps(2)] show ?case .
next
  case (called_back w s cb)
  show ?case
  proof (rule settled_after_start [OF called_back.IH])
    show "trace (log (Callback cb) w) = trace w @ [Callback cb]" by (simp add: log_def)
  qed (use called_back.hyps(2) in \<open>auto\<close>)
qed

text \<open>
  Claim C7. Whenever \<^verbatim>\<open>connect_wss\<close>, called on a reachable controller, returns true, a
  thread has been started, every thread start of the trace comes right after an
  authentication frame and a subscription frame, and every callback, so every inbound
  message, was run after a thread start. When the call was made while not connected, it is
  this call that opened the session: after its login requests it created the socket, sent
  the two frames and then started the thread, with no callback in between and no other
  thread start in the call.
\<close>

theorem connect_wss_after_frames:
  assumes "reachable w s" and "connect_wss w s = (Inr True, s', w')"
  shows "ThreadStart \<in> set (trace w') \<and> framed (trace w') \<and> heard (trace w') \<and>
         (socket_state s \<noteq> SOCK_CONNECTED \<longrightarrow>
            (\<exists>reqs post. trace w' = trace w @ reqs @ [WsCreate, AuthFrame, SubFrame, ThreadStart] @ post \<and>
               list_all is_request reqs \<and> ThreadStart \<notin> set post))"
proof -
  have before: "settled w s" using assms(1) by (rule reachable_settled)
  then have after: "settled w' s'" using assms(2) by (rule settled_connect_wss)
  have "ThreadStart \<in> set (trace w')"
  proof (cases "socket_state s = SOCK_CONNECTED")
    case True
    then show ?thesis using before assms(2) by (simp add: connect_wss_def settled_def)
  next
    case False
    from connect_wss_session [OF False assms(2)] show ?thesis by auto
  qed
  then show ?thesis using after connect_wss_session [OF _ assms(2)]
    by (simp add: settled_def)
qed

lemma first_session:
  "connect_wss opening_world keyed_ctrl =
     (Inr True, connected_ctrl,
      opening_world\<lparr>trace := [WsCreate, AuthFrame, SubFrame, ThreadStart, Callback OnOpen]\<rparr>)"
  by (simp add: connect_wss_def open_wss_thread_def check_credentials_def keyed_ctrl_def
      connected_ctrl_def init_wss_ctrl_def serving_def opening_world_def authenticate_def
      subscribe_def background_def setup_failed_def log_def advance_def Let_def fifteen on_open_def)

lemma second_session:
  "connect_wss dropped_world dropped_ctrl =
     (Inr True, connected_ctrl\<lparr>wst := Some 9, ws := Some 6\<rparr>,
      dropped_world\<lparr>trace := trace dropped_world @
        [WsCreate, AuthFrame, SubFrame, ThreadStart, Callback OnOpen]\<rparr>)"
  by (simp add: connect_wss_def open_wss_thread_def check_credentials_def keyed_ctrl_def
      connected_ctrl_def dropped_ctrl_def dropped_world_def init_wss_ctrl_def serving_def
      opening_world_def authenticate_def
      subscribe_def background_def setup_failed_def log_def advance_def Let_def fifteen on_open_def)

lemma reachable_dropped: "reachable dropped_world dropped_ctrl"
proof -
  have "reachable opening_world keyed_ctrl"
    unfolding keyed_ctrl_def by (rule reachable.created) (simp add: opening_world_def serving_def)
  then have "reachable (opening_world\<lparr>trace := [WsCreate, AuthFrame, SubFrame, ThreadStart, Callback OnOpen]\<rparr>)
      connected_ctrl"
    using first_session by (rule reachable.connected)
  then have "reachable (log (Callback OnClose)
        (opening_world\<lparr>trace := [WsCreate, AuthFrame, SubFrame, ThreadStart, Callback OnOpen]\<rparr>))
      (run_callback OnClose connected_ctrl)"
    by (rule reachable.called_back) simp
  then show ?thesis
    by (simp add: dropped_world_def dropped_ctrl_def log_def on_close_def)
qed

theorem connect_wss_after_frames_witness:
  "reachable dropped_world dropped_ctrl \<and> socket_state dropped_ctrl \<noteq> SOCK_CONNECTED \<and>
   fst (connect_wss dropped_world dropped_ctrl) = Inr True \<and>
   trace (snd (snd (connect_wss dropped_world dropped_ctrl))) =
     trace dropped_world @ [WsCreate, AuthFrame, SubFrame, ThreadStart, Callback OnOpen] \<and>
   framed (trace dropped_world @ [WsCreate, AuthFrame, SubFrame, ThreadStart, Callback OnOpen]) \<and>
   heard (trace dropped_world @ [WsCreate, AuthFrame, SubFrame, ThreadStart, Callback OnOpen])"
proof -
  have closed: "socket_state dropped_ctrl \<noteq> SOCK_CONNECTED" by (simp add: dropped_ctrl_def)
  from connect_wss_after_frames [OF reachable_dropped second_session]
  show ?thesis using reachable_dropped closed second_session by simp
qed

end
